theory Spec2Isabelle
  imports Main "HOL-Library.Word" "HOL-Library.Signed_Division"
begin

unbundle bit_operations_syntax

section \<open>The image cache of aliceVision/image/caching.hpp\<close>

text \<open>
  The header declares the key, the memory accountant, the type-erased value holder and
  the cache class, and defines \<open>ImageCache::get\<close> and \<open>ImageCache::load\<close>. C++ \<open>int\<close> is
  a 32-bit two's complement word here (arithmetic wraps, comparisons read it with
  \<open>sint\<close>); \<open>size_t\<close> is a 64-bit word. The mutex makes a whole call of \<open>get\<close> one
  atomic step, so a call is a function from the state before to the state after.
\<close>

type_synonym int32 = "32 word"
type_synonym size_t = "64 word"

subsection \<open>Pixel types and keys\<close>

text \<open>\<open>oiio::TypeDesc::BASETYPE\<close>, as far as the six pixel types use it.\<close>

datatype BASETYPE = UINT8 | FLOAT

text \<open>
  The template argument \<open>TPix\<close> of \<open>get\<close>, \<open>load\<close> and \<open>CacheValue::get\<close>: unsigned char,
  float, RGBColor, RGBfColor, RGBAColor, RGBAfColor, in the order of the \<open>wrap\<close> overloads.
\<close>

datatype TPix = TUChar | TFloat | TRGB | TRGBf | TRGBA | TRGBAf

text \<open>
  Modelled from the spec: \<open>ColorTypeInfo<TPix>\<close> (pixelTypes.hpp) is not part of the
  header. The key holds the pixel encoding as channel count and sample type; the six
  variants are one, three or four channels of 8-bit unsigned or float samples.
\<close>

fun ColorTypeInfo_size :: "TPix \<Rightarrow> int32" where
  "ColorTypeInfo_size TUChar = 1"
| "ColorTypeInfo_size TFloat = 1"
| "ColorTypeInfo_size TRGB = 3"
| "ColorTypeInfo_size TRGBf = 3"
| "ColorTypeInfo_size TRGBA = 4"
| "ColorTypeInfo_size TRGBAf = 4"

fun ColorTypeInfo_typeDesc :: "TPix \<Rightarrow> BASETYPE" where
  "ColorTypeInfo_typeDesc TUChar = UINT8"
| "ColorTypeInfo_typeDesc TFloat = FLOAT"
| "ColorTypeInfo_typeDesc TRGB = UINT8"
| "ColorTypeInfo_typeDesc TRGBf = FLOAT"
| "ColorTypeInfo_typeDesc TRGBA = UINT8"
| "ColorTypeInfo_typeDesc TRGBAf = FLOAT"

text \<open>
  Modelled from the spec: \<open>sizeof(TPix)\<close>, the bytes of one pixel (channel count times
  the byte width of a sample: 1 for 8-bit unsigned, 4 for float).
\<close>

fun sizeof :: "TPix \<Rightarrow> size_t" where
  "sizeof TUChar = 1"
| "sizeof TFloat = 4"
| "sizeof TRGB = 3"
| "sizeof TRGBf = 12"
| "sizeof TRGBA = 4"
| "sizeof TRGBAf = 16"

text \<open>\<open>struct CacheKey\<close>; \<open>operator==\<close> compares the four fields, as record equality does.\<close>

record CacheKey =
  filename :: string
  nbChannels :: int32
  typeDesc :: BASETYPE
  halfSampleLevel :: int32

subsection \<open>The memory accountant\<close>

record CacheMemoryUsage =
  capacity :: int32
  maxSize :: int32
  nbImages :: int32
  contentSize :: int32

text \<open>The constructor \<open>CacheMemoryUsage(int capacity_MB, int maxSize_MB)\<close>.\<close>

definition new_CacheMemoryUsage :: "int32 \<Rightarrow> int32 \<Rightarrow> CacheMemoryUsage" where
  "new_CacheMemoryUsage capacity_MB maxSize_MB =
     \<lparr>capacity = capacity_MB * 1000000,
      maxSize = maxSize_MB * 1000000,
      nbImages = 0,
      contentSize = 0\<rparr>"

subsection \<open>Shared buffers and the value holder\<close>

text \<open>
  An image is its dimensions (the pixels play no part in the cache). A
  \<open>std::shared_ptr<Image<TPix>>\<close> that is not null is the address of the buffer, the
  buffer, and the count of the control block (\<open>use_count()\<close>, a \<open>long\<close>, which never
  overflows here); \<open>None\<close> is \<open>nullptr\<close>. While an entry is
  resident the cache's copy is one of the owners, so the count is kept with it.
\<close>

record Image =
  Width :: int32
  Height :: int32

record shared_ptr =
  ptr :: nat
  pointee :: Image
  use_count :: int

record CacheValue =
  imgUChar :: "shared_ptr option"
  imgFloat :: "shared_ptr option"
  imgRGB :: "shared_ptr option"
  imgRGBf :: "shared_ptr option"
  imgRGBA :: "shared_ptr option"
  imgRGBAf :: "shared_ptr option"

text \<open>The private constructor: every slot is \<open>nullptr\<close>.\<close>

definition CacheValue_empty :: CacheValue where
  "CacheValue_empty =
     \<lparr>imgUChar = None, imgFloat = None, imgRGB = None,
      imgRGBf = None, imgRGBA = None, imgRGBAf = None\<rparr>"

text \<open>The six specialisations of \<open>CacheValue::get<TPix>\<close>.\<close>

fun CacheValue_get :: "TPix \<Rightarrow> CacheValue \<Rightarrow> shared_ptr option" where
  "CacheValue_get TUChar v = imgUChar v"
| "CacheValue_get TFloat v = imgFloat v"
| "CacheValue_get TRGB v = imgRGB v"
| "CacheValue_get TRGBf v = imgRGBf v"
| "CacheValue_get TRGBA v = imgRGBA v"
| "CacheValue_get TRGBAf v = imgRGBAf v"

fun set_slot :: "TPix \<Rightarrow> shared_ptr option \<Rightarrow> CacheValue \<Rightarrow> CacheValue" where
  "set_slot TUChar p v = v\<lparr>imgUChar := p\<rparr>"
| "set_slot TFloat p v = v\<lparr>imgFloat := p\<rparr>"
| "set_slot TRGB p v = v\<lparr>imgRGB := p\<rparr>"
| "set_slot TRGBf p v = v\<lparr>imgRGBf := p\<rparr>"
| "set_slot TRGBA p v = v\<lparr>imgRGBA := p\<rparr>"
| "set_slot TRGBAf p v = v\<lparr>imgRGBAf := p\<rparr>"

text \<open>
  Modelled from the spec: the six overloads of \<open>CacheValue::wrap\<close> are declared in the
  header and defined elsewhere. Each takes one buffer variant; all other slots stay empty.
\<close>

definition wrap :: "TPix \<Rightarrow> shared_ptr \<Rightarrow> CacheValue" where
  "wrap tp img = set_slot tp (Some img) CacheValue_empty"

text \<open>The slots in the order of their declaration.\<close>

definition slots :: "CacheValue \<Rightarrow> (TPix \<times> shared_ptr option) list" where
  "slots v =
     [(TUChar, imgUChar v), (TFloat, imgFloat v), (TRGB, imgRGB v),
      (TRGBf, imgRGBf v), (TRGBA, imgRGBA v), (TRGBAf, imgRGBAf v)]"

fun wrapped :: "(TPix \<times> shared_ptr option) list \<Rightarrow> (TPix \<times> shared_ptr) option" where
  "wrapped [] = None"
| "wrapped ((tp, None) # xs) = wrapped xs"
| "wrapped ((tp, Some p) # xs) = Some (tp, p)"

text \<open>
  Modelled from the spec: \<open>CacheValue::useCount\<close> is declared in the header with the
  comment "the use_count of the wrapped shared pointer if there is one, otherwise 0".
\<close>

definition useCount :: "CacheValue \<Rightarrow> int" where
  "useCount v = (case wrapped (slots v) of None \<Rightarrow> 0 | Some (tp, p) \<Rightarrow> use_count p)"

text \<open>
  Modelled from the spec: the byte size of a held buffer is width times height times
  channel count times sample byte width, that is width * height * sizeof(TPix),
  returned as an \<open>int\<close>.
\<close>

definition MemorySize :: "TPix \<Rightarrow> Image \<Rightarrow> int32" where
  "MemorySize tp img =
     ucast ((scast (Width img * Height img) :: size_t) * sizeof tp)"

text \<open>
  Modelled from the spec: \<open>CacheValue::memorySize\<close> is declared in the header with the
  comment "the memory size of the wrapped image if there is one, otherwise 0".
\<close>

definition memorySize :: "CacheValue \<Rightarrow> int32" where
  "memorySize v =
     (case wrapped (slots v) of None \<Rightarrow> 0 | Some (tp, p) \<Rightarrow> MemorySize tp (pointee p))"

text \<open>
  Copying a shared pointer out of a slot adds one owner to its control block; copying
  \<open>nullptr\<close> changes nothing.
\<close>

definition acquire :: "TPix \<Rightarrow> CacheValue \<Rightarrow> CacheValue" where
  "acquire tp v =
     (case CacheValue_get tp v of
        None \<Rightarrow> v
      | Some p \<Rightarrow> set_slot tp (Some (p\<lparr>use_count := use_count p + 1\<rparr>)) v)"

subsection \<open>The cache\<close>

text \<open>
  \<open>_imagePtrs\<close> is the unordered map, \<open>_keys\<close> the list ordered from least to most
  recently used. \<open>_options\<close> is only handed to \<open>readImage\<close>, which is a parameter below.
\<close>

record ImageCache =
  memUsage :: CacheMemoryUsage
  imagePtrs :: "CacheKey \<rightharpoonup> CacheValue"
  keys :: "CacheKey list"

text \<open>
  Modelled from the spec: the constructor \<open>ImageCache(capacity_MB, maxSize_MB, options)\<close>
  is declared in the header and defined elsewhere. It builds the accountant from the two
  sizes and starts with no entry; it validates nothing.
\<close>

definition new_ImageCache :: "int32 \<Rightarrow> int32 \<Rightarrow> ImageCache" where
  "new_ImageCache capacity_MB maxSize_MB =
     \<lparr>memUsage = new_CacheMemoryUsage capacity_MB maxSize_MB,
      imagePtrs = Map.empty,
      keys = []\<rparr>"

text \<open>
  The collaborators of one call, which the header only uses: \<open>readImageSize\<close> and
  \<open>readImage\<close> (\<open>None\<close> when they throw; nothing of the cache has changed in \<open>load\<close>
  before the image is read and downscaled), \<open>downscaleImageInplace\<close>, and the address
  that \<open>std::make_shared\<close> returns. Each call of \<open>get\<close> takes its own loader, since files
  and the allocator change between calls.
\<close>

record Loader =
  readImageSize :: "string \<Rightarrow> (int32 \<times> int32) option"
  readImage :: "string \<Rightarrow> Image option"
  downscaleImageInplace :: "Image \<Rightarrow> int32 \<Rightarrow> Image"
  make_shared :: nat

text \<open>The calls of the loader that a call of \<open>get\<close> makes, in their order.\<close>

datatype event = CallReadImageSize string | CallReadImage string

text \<open>
  \<open>OutOfRange\<close> is the \<open>std::out_of_range\<close> of \<open>unordered_map::at\<close>, \<open>LoaderError\<close> an
  exception of the loader, \<open>NotEnoughSpace\<close> the \<open>ALICEVISION_THROW_ERROR\<close> at the end of
  \<open>get\<close>. \<open>1 << halfSampleLevel\<close> is undefined for a level outside 0..31; the model
  stops there with \<open>UndefinedShift\<close> and leaves the state as it is.
\<close>

datatype error = OutOfRange | LoaderError | NotEnoughSpace | UndefinedShift

text \<open>\<open>unordered_map::insert\<close> keeps an element that is already there.\<close>

definition map_insert :: "('k \<rightharpoonup> 'v) \<Rightarrow> 'k \<Rightarrow> 'v \<Rightarrow> ('k \<rightharpoonup> 'v)" where
  "map_insert m k v = (if m k = None then m(k \<mapsto> v) else m)"

text \<open>\<open>1 << level\<close> and the truncating division of C++ on \<open>int\<close>.\<close>

definition shl1 :: "int32 \<Rightarrow> int32" where
  "shl1 level = push_bit (unat level) 1"

definition int_div :: "int32 \<Rightarrow> int32 \<Rightarrow> int32" where
  "int_div a b = word_of_int (sint a sdiv sint b)"

text \<open>
  \<open>(width / downscale) * (height / downscale) * sizeof(TPix)\<close>: the product of the two
  \<open>int\<close>s is an \<open>int\<close>, is converted to \<open>size_t\<close> for the product with \<open>sizeof\<close>, and
  the result is converted back to \<open>int\<close>.
\<close>

definition memSize_of :: "TPix \<Rightarrow> int32 \<Rightarrow> int32 \<Rightarrow> int32 \<Rightarrow> int32" where
  "memSize_of tp width height downscale =
     ucast ((scast (int_div width downscale * int_div height downscale) :: size_t) * sizeof tp)"

text \<open>
  \<open>ImageCache::load\<close>. While it runs, the locals \<open>img\<close> and \<open>value\<close> own the buffer
  too; when it has returned the copy in the map is the only owner, which is the count 1
  the new value is given here.
\<close>

definition load :: "Loader \<Rightarrow> TPix \<Rightarrow> CacheKey \<Rightarrow> ImageCache \<Rightarrow> error option \<times> ImageCache \<times> event list" where
  "load ld tp key s =
     (case readImage ld (filename key) of
        None \<Rightarrow> (Some LoaderError, s, [CallReadImage (filename key)])
      | Some raw \<Rightarrow>
          let downscale = shl1 (halfSampleLevel key);
              img = downscaleImageInplace ld raw downscale;
              value = wrap tp \<lparr>ptr = make_shared ld, pointee = img, use_count = 1\<rparr>
          in (None,
              s\<lparr>imagePtrs := map_insert (imagePtrs s) key value,
                keys := keys s @ [key],
                memUsage := (memUsage s)
                  \<lparr>nbImages := nbImages (memUsage s) + 1,
                   contentSize := contentSize (memUsage s) + memorySize value\<rparr>\<rparr>,
              [CallReadImage (filename key)]))"

text \<open>\<open>return _imagePtrs.at(reqKey).get<TPix>();\<close> The caller's copy is a new owner.\<close>

definition fetch :: "TPix \<Rightarrow> CacheKey \<Rightarrow> ImageCache \<Rightarrow> (error + nat option) \<times> ImageCache" where
  "fetch tp key s =
     (case imagePtrs s key of
        None \<Rightarrow> (Inl OutOfRange, s)
      | Some v \<Rightarrow>
          (case CacheValue_get tp v of
             None \<Rightarrow> (Inr None, s)
           | Some p \<Rightarrow> (Inr (Some (ptr p)), s\<lparr>imagePtrs := (imagePtrs s)(key \<mapsto> acquire tp v)\<rparr>)))"

text \<open>\<open>load<TPix>(reqKey); return _imagePtrs.at(reqKey).get<TPix>();\<close>\<close>

definition load_and_return ::
  "Loader \<Rightarrow> TPix \<Rightarrow> CacheKey \<Rightarrow> ImageCache \<Rightarrow> event list \<Rightarrow> (error + nat option) \<times> ImageCache \<times> event list" where
  "load_and_return ld tp key s evs =
     (case load ld tp key s of
        (Some e, s', evs') \<Rightarrow> (Inl e, s', evs @ evs')
      | (None, s', evs') \<Rightarrow> (case fetch tp key s' of (r, s'') \<Rightarrow> (r, s'', evs @ evs')))"

text \<open>
  The four statements that remove an entry, the same in both passes: the accountant is
  decremented, the key is erased from the map, and the list element the iterator points
  to (the first occurrence of the key) is erased.
\<close>

definition evict :: "CacheKey \<Rightarrow> CacheValue \<Rightarrow> ImageCache \<Rightarrow> ImageCache" where
  "evict key value s =
     s\<lparr>memUsage := (memUsage s)
         \<lparr>nbImages := nbImages (memUsage s) - 1,
          contentSize := contentSize (memUsage s) - memorySize value\<rparr>,
       imagePtrs := (imagePtrs s)(key := None),
       keys := remove1 key (keys s)\<rparr>"

text \<open>
  The scan of the first pass: the first key, from the least recently used, whose value
  has use count 1 and a size of at least the missing capacity.
\<close>

fun find_single ::
  "(CacheKey \<rightharpoonup> CacheValue) \<Rightarrow> int32 \<Rightarrow> CacheKey list \<Rightarrow> error + (CacheKey \<times> CacheValue) option" where
  "find_single m missingCapacity [] = Inr None"
| "find_single m missingCapacity (key # ks) =
     (case m key of
        None \<Rightarrow> Inl OutOfRange
      | Some value \<Rightarrow>
          if useCount value = 1 \<and> sint missingCapacity \<le> sint (memorySize value)
          then Inr (Some (key, value))
          else find_single m missingCapacity ks)"

text \<open>The \<open>std::find_if\<close> of the second pass: the first key with use count 1.\<close>

fun find_unused :: "(CacheKey \<rightharpoonup> CacheValue) \<Rightarrow> CacheKey list \<Rightarrow> error + CacheKey option" where
  "find_unused m [] = Inr None"
| "find_unused m (key # ks) =
     (case m key of
        None \<Rightarrow> Inl OutOfRange
      | Some value \<Rightarrow> if useCount value = 1 then Inr (Some key) else find_unused m ks)"

text \<open>
  The loop \<open>while (missingCapacity > 0)\<close> of the second pass. Its body never assigns
  \<open>missingCapacity\<close>.
\<close>

function evict_loop :: "int32 \<Rightarrow> ImageCache \<Rightarrow> error option \<times> ImageCache" where
  "evict_loop missingCapacity s =
     (if 0 < sint missingCapacity then
        (case find_unused (imagePtrs s) (keys s) of
           Inl e \<Rightarrow> (Some e, s)
         | Inr None \<Rightarrow> (None, s)
         | Inr (Some key) \<Rightarrow>
             (case imagePtrs s key of
                None \<Rightarrow> (Some OutOfRange, s)
              | Some value \<Rightarrow> evict_loop missingCapacity (evict key value s)))
      else (None, s))"
  by pat_completeness auto
termination
proof (relation "measure (\<lambda>(m, s). length (keys s))")
  show "wf (measure (\<lambda>(m, s). length (keys s)))" by simp
next
  fix missingCapacity :: int32 and s :: ImageCache and x2 x2a x2b
  assume found: "find_unused (imagePtrs s) (keys s) = Inr x2" "x2 = Some x2a"
  have mem: "find_unused m ks = Inr (Some k) \<Longrightarrow> k \<in> set ks" for m ks k
    by (induction ks) (auto split: option.splits if_splits)
  from found have "x2a \<in> set (keys s)" by (simp add: mem)
  then have "length (remove1 x2a (keys s)) < length (keys s)"
    using length_pos_if_in_set [of x2a "keys s"] by (simp add: length_remove1)
  then show "((missingCapacity, evict x2a x2b s), (missingCapacity, s))
        \<in> measure (\<lambda>(m, s). length (keys s))"
    by (simp add: evict_def)
qed

declare evict_loop.simps [simp del]

text \<open>
  What \<open>get\<close> does once the image does not fit in the capacity: the missing capacity,
  the first pass, the second pass, and the test against \<open>maxSize\<close>.
\<close>

definition evict_and_admit ::
  "Loader \<Rightarrow> TPix \<Rightarrow> CacheKey \<Rightarrow> int32 \<Rightarrow> ImageCache \<Rightarrow> event list \<Rightarrow>
     (error + nat option) \<times> ImageCache \<times> event list" where
  "evict_and_admit ld tp reqKey memSize s evs =
     (let missingCapacity = memSize + contentSize (memUsage s) - capacity (memUsage s) in
      case find_single (imagePtrs s) missingCapacity (keys s) of
        Inl e \<Rightarrow> (Inl e, s, evs)
      | Inr (Some (key, value)) \<Rightarrow> load_and_return ld tp reqKey (evict key value s) evs
      | Inr None \<Rightarrow>
          (case evict_loop missingCapacity s of
             (Some e, s') \<Rightarrow> (Inl e, s', evs)
           | (None, s') \<Rightarrow>
               if sint (memSize + contentSize (memUsage s')) \<le> sint (maxSize (memUsage s'))
               then load_and_return ld tp reqKey s' evs
               else (Inl NotEnoughSpace, s', evs)))"

text \<open>The miss path of \<open>get\<close>, from \<open>readImageSize\<close> on.\<close>

definition get_miss ::
  "Loader \<Rightarrow> TPix \<Rightarrow> CacheKey \<Rightarrow> ImageCache \<Rightarrow> (error + nat option) \<times> ImageCache \<times> event list" where
  "get_miss ld tp reqKey s =
     (let evs = [CallReadImageSize (filename reqKey)] in
      case readImageSize ld (filename reqKey) of
        None \<Rightarrow> (Inl LoaderError, s, evs)
      | Some (width, height) \<Rightarrow>
          if \<not> (0 \<le> sint (halfSampleLevel reqKey) \<and> sint (halfSampleLevel reqKey) < 32)
          then (Inl UndefinedShift, s, evs)
          else
            let downscale = shl1 (halfSampleLevel reqKey);
                memSize = memSize_of tp width height downscale
            in if sint (memSize + contentSize (memUsage s)) \<le> sint (capacity (memUsage s))
               then load_and_return ld tp reqKey s evs
               else evict_and_admit ld tp reqKey memSize s evs)"

text \<open>\<open>ImageCache::get<TPix>(filename, halfSampleLevel)\<close>.\<close>

definition reqKey_of :: "TPix \<Rightarrow> string \<Rightarrow> int32 \<Rightarrow> CacheKey" where
  "reqKey_of tp fname level =
     \<lparr>filename = fname, nbChannels = ColorTypeInfo_size tp,
      typeDesc = ColorTypeInfo_typeDesc tp, halfSampleLevel = level\<rparr>"

definition get ::
  "Loader \<Rightarrow> TPix \<Rightarrow> string \<Rightarrow> int32 \<Rightarrow> ImageCache \<Rightarrow> (error + nat option) \<times> ImageCache \<times> event list" where
  "get ld tp fname level s =
     (let reqKey = reqKey_of tp fname level in
      if reqKey \<in> set (keys s)
      then (case fetch tp reqKey (s\<lparr>keys := remove1 reqKey (keys s) @ [reqKey]\<rparr>) of
              (r, s') \<Rightarrow> (r, s', []))
      else get_miss ld tp reqKey s)"

subsection \<open>Outside owners and reachable states\<close>

text \<open>
  Between two calls the callers drop the handles they hold or copy them. Either changes
  the count of the control block that the cache's slot shares, and nothing else.
\<close>

definition with_use_count :: "(int \<Rightarrow> int) \<Rightarrow> CacheValue \<Rightarrow> CacheValue" where
  "with_use_count f v =
     (let g = map_option (\<lambda>p. p\<lparr>use_count := f (use_count p)\<rparr>) in
      \<lparr>imgUChar = g (imgUChar v), imgFloat = g (imgFloat v), imgRGB = g (imgRGB v),
       imgRGBf = g (imgRGBf v), imgRGBA = g (imgRGBA v), imgRGBAf = g (imgRGBAf v)\<rparr>)"

definition handle_dropped :: "CacheKey \<Rightarrow> ImageCache \<Rightarrow> ImageCache" where
  "handle_dropped k s =
     (case imagePtrs s k of
        None \<Rightarrow> s
      | Some v \<Rightarrow>
          if 1 < useCount v
          then s\<lparr>imagePtrs := (imagePtrs s)(k \<mapsto> with_use_count (\<lambda>n. n - 1) v)\<rparr>
          else s)"

definition handle_copied :: "CacheKey \<Rightarrow> ImageCache \<Rightarrow> ImageCache" where
  "handle_copied k s =
     (case imagePtrs s k of
        None \<Rightarrow> s
      | Some v \<Rightarrow>
          if 1 < useCount v
          then s\<lparr>imagePtrs := (imagePtrs s)(k \<mapsto> with_use_count (\<lambda>n. n + 1) v)\<rparr>
          else s)"

text \<open>
  The states a cache can be in between two calls: the constructed cache, and what a
  completed call of \<open>get\<close> (returning a handle or throwing) or a caller's drop or copy
  of a handle makes of such a state.
\<close>

inductive reachable :: "ImageCache \<Rightarrow> bool" where
  constructed: "reachable (new_ImageCache capacity_MB maxSize_MB)"
| called: "reachable s \<Longrightarrow> get ld tp fname level s = (r, s', evs) \<Longrightarrow> reachable s'"
| dropped: "reachable s \<Longrightarrow> reachable (handle_dropped k s)"
| copied: "reachable s \<Longrightarrow> reachable (handle_copied k s)"

text \<open>
  The structural invariant in the shape the proofs use: the recency list has no
  duplicate, holds the keys of the map, and the accountant counts and sums along it.
\<close>

definition consistent :: "ImageCache \<Rightarrow> bool" where
  "consistent s \<longleftrightarrow>
     distinct (keys s) \<and>
     set (keys s) = dom (imagePtrs s) \<and>
     nbImages (memUsage s) = of_nat (length (keys s)) \<and>
     contentSize (memUsage s) = sum_list (map (\<lambda>k. memorySize (the (imagePtrs s k))) (keys s))"

text \<open>Every entry holds a buffer in the slot of each pixel type its key stands for.\<close>

definition typed :: "ImageCache \<Rightarrow> bool" where
  "typed s \<longleftrightarrow>
     (\<forall>k v tp. imagePtrs s k = Some v \<longrightarrow>
        ColorTypeInfo_size tp = nbChannels k \<longrightarrow>
        ColorTypeInfo_typeDesc tp = typeDesc k \<longrightarrow>
        CacheValue_get tp v \<noteq> None)"

subsection \<open>Concrete caches and loaders\<close>

text \<open>
  A loader that finds a \<open>w\<close> by \<open>h\<close> image under every name, halves it as asked,
  and allocates the buffer at address \<open>a\<close>; an entry value as \<open>load\<close> builds it; and
  the cache that holds the given entries in the given order, from least to most
  recently used, with the accountant set to their number and total size.
\<close>

definition example_loader :: "int32 \<Rightarrow> int32 \<Rightarrow> nat \<Rightarrow> Loader" where
  "example_loader w h a =
     \<lparr>readImageSize = (\<lambda>f. Some (w, h)),
      readImage = (\<lambda>f. Some \<lparr>Width = w, Height = h\<rparr>),
      downscaleImageInplace =
        (\<lambda>img d. \<lparr>Width = int_div (Width img) d, Height = int_div (Height img) d\<rparr>),
      make_shared = a\<rparr>"

definition entry :: "TPix \<Rightarrow> nat \<Rightarrow> int32 \<Rightarrow> int32 \<Rightarrow> int \<Rightarrow> CacheValue" where
  "entry tp a w h n = wrap tp \<lparr>ptr = a, pointee = \<lparr>Width = w, Height = h\<rparr>, use_count = n\<rparr>"

definition cache_of :: "int32 \<Rightarrow> int32 \<Rightarrow> (CacheKey \<times> CacheValue) list \<Rightarrow> ImageCache" where
  "cache_of cap mx kvs =
     \<lparr>memUsage = \<lparr>capacity = cap, maxSize = mx, nbImages = of_nat (length kvs),
         contentSize = sum_list (map (\<lambda>(k, v). memorySize v) kvs)\<rparr>,
      imagePtrs = map_of kvs,
      keys = map fst kvs\<rparr>"

section \<open>Properties\<close>

subsection \<open>The value holder\<close>

lemma get_set_slot: "CacheValue_get tp (set_slot tp' p v) = (if tp = tp' then p else CacheValue_get tp v)"
  by (cases tp; cases tp') simp_all

lemma useCount_wrap: "useCount (wrap tp p) = use_count p"
  by (cases tp) (simp_all add: useCount_def wrap_def slots_def CacheValue_empty_def)

lemma memorySize_wrap: "memorySize (wrap tp p) = MemorySize tp (pointee p)"
  by (cases tp) (simp_all add: memorySize_def wrap_def slots_def CacheValue_empty_def)

lemma get_wrap: "CacheValue_get tp (wrap tp' p) = (if tp = tp' then Some p else None)"
  by (cases tp; cases tp') (simp_all add: wrap_def CacheValue_empty_def)

lemma wrapped_map:
  "wrapped (map (\<lambda>(t, p). (t, map_option (h t) p)) xs) = map_option (\<lambda>(t, p). (t, h t p)) (wrapped xs)"
  by (induction xs rule: wrapped.induct) auto

lemma slots_with_use_count:
  "slots (with_use_count f v) =
     map (\<lambda>(t, p). (t, map_option (\<lambda>p. p\<lparr>use_count := f (use_count p)\<rparr>) p)) (slots v)"
  by (simp add: slots_def with_use_count_def Let_def)

lemma slots_acquire:
  "slots (acquire tp v) =
     map (\<lambda>(t, p). (t, map_option (\<lambda>p. if t = tp then p\<lparr>use_count := use_count p + 1\<rparr> else p) p)) (slots v)"
  by (cases tp) (auto simp: slots_def acquire_def option.map_ident split: option.splits)

lemma memorySize_acquire: "memorySize (acquire tp v) = memorySize v"
  unfolding memorySize_def slots_acquire wrapped_map
  by (cases "wrapped (slots v)") auto

lemma memorySize_with_use_count: "memorySize (with_use_count f v) = memorySize v"
  unfolding memorySize_def slots_with_use_count wrapped_map
  by (cases "wrapped (slots v)") auto

lemma useCount_with_use_count:
  "useCount (with_use_count f v) = (if wrapped (slots v) = None then 0 else f (useCount v))"
  unfolding useCount_def slots_with_use_count wrapped_map
  by (cases "wrapped (slots v)") auto

lemma get_acquire:
  "CacheValue_get tp' (acquire tp v) =
     (if tp' = tp then map_option (\<lambda>p. p\<lparr>use_count := use_count p + 1\<rparr>) (CacheValue_get tp v)
      else CacheValue_get tp' v)"
  by (auto simp: acquire_def get_set_slot split: option.splits)

lemma get_with_use_count:
  "CacheValue_get tp (with_use_count f v) =
     map_option (\<lambda>p. p\<lparr>use_count := f (use_count p)\<rparr>) (CacheValue_get tp v)"
  by (cases tp) (simp_all add: with_use_count_def Let_def)

lemma find_single_Some:
  "find_single m c ks = Inr (Some (k, v)) \<Longrightarrow>
     k \<in> set ks \<and> m k = Some v \<and> useCount v = 1 \<and> sint c \<le> sint (memorySize v)"
  by (induction ks) (auto split: option.splits if_splits)

lemma find_unused_Some:
  "find_unused m ks = Inr (Some k) \<Longrightarrow> k \<in> set ks \<and> (\<exists>v. m k = Some v \<and> useCount v = 1)"
  by (induction ks) (auto split: option.splits if_splits)

lemma sum_list_remove1_word:
  fixes f :: "'a \<Rightarrow> int32"
  shows "k \<in> set xs \<Longrightarrow> sum_list (map f (remove1 k xs)) = sum_list (map f xs) - f k"
  by (simp add: sum_list_map_remove1 [of k xs f])

lemma sum_list_map_cong_on:
  "(\<And>k. k \<in> set xs \<Longrightarrow> f k = g k) \<Longrightarrow> sum_list (map f xs) = sum_list (map g xs)"
  by (induction xs) auto

lemma consistent_evict:
  assumes "consistent s" and "imagePtrs s key = Some value"
  shows "consistent (evict key value s)"
proof -
  from assms have d: "distinct (keys s)" and dm: "set (keys s) = dom (imagePtrs s)"
    and n: "nbImages (memUsage s) = of_nat (length (keys s))"
    and c: "contentSize (memUsage s) = sum_list (map (\<lambda>k. memorySize (the (imagePtrs s k))) (keys s))"
    by (simp_all add: consistent_def)
  from assms dm have mem: "key \<in> set (keys s)" by auto
  have 1: "distinct (remove1 key (keys s))" using d by simp
  have 2: "set (remove1 key (keys s)) = dom ((imagePtrs s)(key := None))"
    using d dm by auto
  have "length (keys s) = Suc (length (remove1 key (keys s)))"
    using mem length_pos_if_in_set [OF mem] by (simp add: length_remove1)
  then have 3: "nbImages (memUsage s) - 1 = of_nat (length (remove1 key (keys s)))"
    using n by simp
  have "sum_list (map (\<lambda>k. memorySize (the (((imagePtrs s)(key := None)) k))) (remove1 key (keys s)))
      = sum_list (map (\<lambda>k. memorySize (the (imagePtrs s k))) (remove1 key (keys s)))"
    using d by (intro sum_list_map_cong_on) auto
  also have "\<dots> = sum_list (map (\<lambda>k. memorySize (the (imagePtrs s k))) (keys s))
      - memorySize (the (imagePtrs s key))"
    using mem by (rule sum_list_remove1_word)
  finally have 4: "contentSize (memUsage s) - memorySize value
      = sum_list (map (\<lambda>k. memorySize (the (((imagePtrs s)(key := None)) k))) (remove1 key (keys s)))"
    using c assms(2) by simp
  show ?thesis
    using 1 2 3 4 by (simp add: consistent_def evict_def)
qed

lemma consistent_promote:
  assumes "consistent s" and "key \<in> set (keys s)"
  shows "consistent (s\<lparr>keys := remove1 key (keys s) @ [key]\<rparr>)"
proof -
  from assms have d: "distinct (keys s)" and dm: "set (keys s) = dom (imagePtrs s)"
    and n: "nbImages (memUsage s) = of_nat (length (keys s))"
    and c: "contentSize (memUsage s) = sum_list (map (\<lambda>k. memorySize (the (imagePtrs s k))) (keys s))"
    by (simp_all add: consistent_def)
  have l: "length (keys s) = Suc (length (remove1 key (keys s)))"
    using assms(2) length_pos_if_in_set [OF assms(2)] by (simp add: length_remove1)
  show ?thesis
    using d dm n c assms(2) l
    by (auto simp: consistent_def sum_list_remove1_word)
qed

lemma consistent_update_value:
  assumes "consistent s" and "imagePtrs s key = Some v" and "memorySize v' = memorySize v"
  shows "consistent (s\<lparr>imagePtrs := (imagePtrs s)(key \<mapsto> v')\<rparr>)"
proof -
  have "sum_list (map (\<lambda>k. memorySize (the (((imagePtrs s)(key \<mapsto> v')) k))) (keys s))
      = sum_list (map (\<lambda>k. memorySize (the (imagePtrs s k))) (keys s))"
    using assms(2,3) by (intro sum_list_map_cong_on) auto
  then show ?thesis
    using assms(1,2) by (auto simp: consistent_def)
qed

lemma consistent_fetch:
  "consistent s \<Longrightarrow> fetch tp key s = (r, s') \<Longrightarrow> consistent s'"
  by (auto simp: fetch_def memorySize_acquire consistent_update_value split: option.splits)

lemma consistent_load:
  assumes "consistent s" and "key \<notin> set (keys s)" and "load ld tp key s = (e, s', evs)"
  shows "consistent s'"
proof (cases "readImage ld (filename key)")
  case None
  with assms show ?thesis by (simp add: load_def)
next
  case (Some raw)
  from assms have d: "distinct (keys s)" and dm: "set (keys s) = dom (imagePtrs s)"
    and n: "nbImages (memUsage s) = of_nat (length (keys s))"
    and c: "contentSize (memUsage s) = sum_list (map (\<lambda>k. memorySize (the (imagePtrs s k))) (keys s))"
    by (simp_all add: consistent_def)
  from dm assms(2) have none: "imagePtrs s key = None" by auto
  define val where "val = wrap tp \<lparr>ptr = make_shared ld,
      pointee = downscaleImageInplace ld raw (shl1 (halfSampleLevel key)), use_count = 1\<rparr>"
  have s': "s' = s\<lparr>imagePtrs := (imagePtrs s)(key \<mapsto> val), keys := keys s @ [key],
      memUsage := (memUsage s)\<lparr>nbImages := nbImages (memUsage s) + 1,
        contentSize := contentSize (memUsage s) + memorySize val\<rparr>\<rparr>"
    using assms(3) Some none by (simp add: load_def Let_def map_insert_def val_def)
  have "sum_list (map (\<lambda>k. memorySize (the (((imagePtrs s)(key \<mapsto> val)) k))) (keys s))
      = sum_list (map (\<lambda>k. memorySize (the (imagePtrs s k))) (keys s))"
    using assms(2) by (intro sum_list_map_cong_on) auto
  then show ?thesis
    using d dm n c assms(2) by (auto simp: consistent_def s')
qed

lemma consistent_load_and_return:
  "consistent s \<Longrightarrow> key \<notin> set (keys s) \<Longrightarrow> load_and_return ld tp key s evs = (r, s', evs') \<Longrightarrow> consistent s'"
  by (auto simp: load_and_return_def split: prod.splits option.splits
      dest: consistent_load consistent_fetch)

lemma keys_evict_subset: "set (keys (evict k v s)) \<subseteq> set (keys s)"
  using set_remove1_subset [of k "keys s"] by (simp add: evict_def)

lemma evict_loop_consistent:
  "consistent s \<Longrightarrow> evict_loop c s = (e, s') \<Longrightarrow> consistent s' \<and> set (keys s') \<subseteq> set (keys s)"
proof (induction c s rule: evict_loop.induct)
  case (1 c s)
  show ?case
  proof (cases "0 < sint c")
    case False
    with "1.prems" show ?thesis by (simp add: evict_loop.simps)
  next
    case True
    show ?thesis
    proof (cases "find_unused (imagePtrs s) (keys s)")
      case (Inl err)
      with True "1.prems" show ?thesis by (simp add: evict_loop.simps)
    next
      case (Inr found)
      show ?thesis
      proof (cases found)
        case None
        with True Inr "1.prems" show ?thesis by (simp add: evict_loop.simps)
      next
        case (Some key)
        with Inr obtain val where v: "imagePtrs s key = Some val"
          by (auto dest: find_unused_Some)
        have step: "evict_loop c (evict key val s) = (e, s')"
          using True Inr Some v "1.prems"(2) by (simp add: evict_loop.simps [of c s])
        have c': "consistent (evict key val s)"
          using "1.prems"(1) v by (rule consistent_evict)
        from "1.IH" [OF True Inr Some v c' step] keys_evict_subset [of key val s]
        show ?thesis by blast
      qed
    qed
  qed
qed

lemma consistent_get:
  assumes "consistent s" and "get ld tp fname level s = (r, s', evs)"
  shows "consistent s'"
proof (cases "reqKey_of tp fname level \<in> set (keys s)")
  case True
  with assms show ?thesis
    by (auto simp: get_def Let_def split: prod.splits
        dest!: consistent_fetch [rotated] intro: consistent_promote)
next
  case False
  define k where "k = reqKey_of tp fname level"
  have miss: "k \<notin> set (keys s)" using False by (simp add: k_def)
  have gm: "get_miss ld tp k s = (r, s', evs)"
    using assms(2) False by (simp add: get_def k_def)
  have lr: "consistent s0 \<Longrightarrow> set (keys s0) \<subseteq> set (keys s) \<Longrightarrow>
      load_and_return ld tp k s0 es = (r, s', evs) \<Longrightarrow> consistent s'" for s0 es
    using miss by (auto dest: consistent_load_and_return)
  have ea: "evict_and_admit ld tp k m s es = (r, s', evs) \<Longrightarrow> consistent s'" for m es
  proof -
    assume e: "evict_and_admit ld tp k m s es = (r, s', evs)"
    let ?c = "m + contentSize (memUsage s) - capacity (memUsage s)"
    show ?thesis
    proof (cases "find_single (imagePtrs s) ?c (keys s)")
      case (Inl err)
      with e assms(1) show ?thesis by (simp add: evict_and_admit_def Let_def)
    next
      case (Inr found)
      show ?thesis
      proof (cases found)
        case (Some kv)
        obtain key val where kv: "kv = (key, val)" by (cases kv)
        from Inr Some kv have "imagePtrs s key = Some val"
          by (auto dest: find_single_Some)
        then have "consistent (evict key val s)"
          using assms(1) by (simp add: consistent_evict)
        moreover have "load_and_return ld tp k (evict key val s) es = (r, s', evs)"
          using e Inr Some kv by (simp add: evict_and_admit_def Let_def)
        ultimately show ?thesis
          using lr keys_evict_subset by blast
      next
        case None
        obtain err s1 where l: "evict_loop ?c s = (err, s1)" by (cases "evict_loop ?c s")
        from evict_loop_consistent [OF assms(1) l]
        have c1: "consistent s1" and sub: "set (keys s1) \<subseteq> set (keys s)" by simp_all
        show ?thesis
          using e Inr None l c1 sub lr
          by (cases err) (auto simp: evict_and_admit_def Let_def split: if_splits)
      qed
    qed
  qed
  show ?thesis
    using gm assms(1) lr [of s] ea
    by (auto simp: get_miss_def Let_def split: option.splits if_splits prod.splits)
qed

lemma consistent_handle_dropped: "consistent s \<Longrightarrow> consistent (handle_dropped k s)"
  by (auto simp: handle_dropped_def memorySize_with_use_count consistent_update_value
      split: option.splits)

lemma consistent_handle_copied: "consistent s \<Longrightarrow> consistent (handle_copied k s)"
  by (auto simp: handle_copied_def memorySize_with_use_count consistent_update_value
      split: option.splits)

lemma consistent_new: "consistent (new_ImageCache c m)"
  by (simp add: consistent_def new_ImageCache_def new_CacheMemoryUsage_def)

lemma reachable_consistent: "reachable s \<Longrightarrow> consistent s"
  by (induction rule: reachable.induct)
    (auto intro: consistent_new consistent_get consistent_handle_dropped consistent_handle_copied)

subsection \<open>Evaluation of concrete calls\<close>

lemmas eval_defs =
  get_def get_miss_def evict_and_admit_def example_loader_def new_ImageCache_def
  new_CacheMemoryUsage_def reqKey_of_def load_and_return_def load_def fetch_def wrap_def
  memSize_of_def shl1_def int_div_def map_insert_def CacheValue_empty_def acquire_def
  signed_divide_int_def memorySize_def useCount_def slots_def MemorySize_def Let_def
  evict_def handle_dropped_def with_use_count_def entry_def cache_of_def

text \<open>
  A cache of capacity 1 MB and maximal size 2 MB; three 1000 by 300 images of one byte
  per pixel are requested in turn and each handle is dropped before the next request.
\<close>

lemma reachable_a2:
  "reachable (cache_of 1000000 2000000 [(reqKey_of TUChar ''a'' 0, entry TUChar 1 1000 300 2)])"
proof -
  have "get (example_loader 1000 300 1) TUChar ''a'' 0 (new_ImageCache 1 2) =
      (Inr (Some 1),
       cache_of 1000000 2000000 [(reqKey_of TUChar ''a'' 0, entry TUChar 1 1000 300 2)],
       [CallReadImageSize ''a'', CallReadImage ''a''])"
    by (simp add: eval_defs fun_eq_iff)
  then show ?thesis
    using reachable.called [OF reachable.constructed] by blast
qed

lemma reachable_a:
  "reachable (cache_of 1000000 2000000 [(reqKey_of TUChar ''a'' 0, entry TUChar 1 1000 300 1)])"
proof -
  have "handle_dropped (reqKey_of TUChar ''a'' 0)
      (cache_of 1000000 2000000 [(reqKey_of TUChar ''a'' 0, entry TUChar 1 1000 300 2)]) =
      cache_of 1000000 2000000 [(reqKey_of TUChar ''a'' 0, entry TUChar 1 1000 300 1)]"
    by (simp add: eval_defs fun_eq_iff)
  then show ?thesis
    using reachable.dropped [OF reachable_a2] by metis
qed

lemma reachable_ab2:
  "reachable (cache_of 1000000 2000000
     [(reqKey_of TUChar ''a'' 0, entry TUChar 1 1000 300 1),
      (reqKey_of TUChar ''b'' 0, entry TUChar 2 1000 300 2)])"
proof -
  have "get (example_loader 1000 300 2) TUChar ''b'' 0
      (cache_of 1000000 2000000 [(reqKey_of TUChar ''a'' 0, entry TUChar 1 1000 300 1)]) =
      (Inr (Some 2),
       cache_of 1000000 2000000
         [(reqKey_of TUChar ''a'' 0, entry TUChar 1 1000 300 1),
          (reqKey_of TUChar ''b'' 0, entry TUChar 2 1000 300 2)],
       [CallReadImageSize ''b'', CallReadImage ''b''])"
    by (simp add: eval_defs fun_eq_iff)
  then show ?thesis
    using reachable.called [OF reachable_a] by blast
qed

subsection \<open>The structural invariant\<close>

lemma sint_sum_word:
  fixes f :: "'a \<Rightarrow> int32"
  assumes "- (2 ^ 31) \<le> (\<Sum>k\<in>A. sint (f k))" and "(\<Sum>k\<in>A. sint (f k)) < 2 ^ 31"
  shows "sint (\<Sum>k\<in>A. f k) = (\<Sum>k\<in>A. sint (f k))"
proof -
  have "(\<Sum>k\<in>A. f k) = word_of_int (\<Sum>k\<in>A. sint (f k))"
    by (simp add: of_int_sum)
  then have "sint (\<Sum>k\<in>A. f k) = signed_take_bit 31 (\<Sum>k\<in>A. sint (f k))"
    by (simp only: sint_sbintrunc') simp
  then show ?thesis
    using assms by (simp add: signed_take_bit_int_eq_self)
qed

lemma sint_of_nat_small: "n < 2 ^ 31 \<Longrightarrow> sint (of_nat n :: int32) = int n"
  by (simp add: signed_of_nat signed_take_bit_int_eq_self)

text \<open>
  C3. In every reachable state, that is after any sequence of completed calls of
  \<open>get\<close> (returning a handle or throwing) and of drops and copies of handles by the
  callers, the keys of the map are the keys of the recency list, the accountant's
  \<open>nbImages\<close> is the number of mapped keys and its \<open>contentSize\<close> is the sum of the
  memory sizes of the resident values. Both equations hold between \<open>int\<close>s, that is
  modulo \<open>2^32\<close>; they hold between the integers the \<open>int\<close>s stand for whenever the
  number of entries and the sum of the sizes are in the range of an \<open>int\<close>.
\<close>

theorem reachable_invariant:
  assumes "reachable s"
  shows "set (keys s) = dom (imagePtrs s)
    \<and> nbImages (memUsage s) = of_nat (card (dom (imagePtrs s)))
    \<and> contentSize (memUsage s) = (\<Sum>k\<in>dom (imagePtrs s). memorySize (the (imagePtrs s k)))
    \<and> (card (dom (imagePtrs s)) < 2 ^ 31 \<longrightarrow>
          sint (nbImages (memUsage s)) = int (card (dom (imagePtrs s))))
    \<and> (- (2 ^ 31) \<le> (\<Sum>k\<in>dom (imagePtrs s). sint (memorySize (the (imagePtrs s k)))) \<and>
        (\<Sum>k\<in>dom (imagePtrs s). sint (memorySize (the (imagePtrs s k)))) < 2 ^ 31 \<longrightarrow>
          sint (contentSize (memUsage s)) =
            (\<Sum>k\<in>dom (imagePtrs s). sint (memorySize (the (imagePtrs s k)))))"
proof -
  from assms have c: "consistent s" by (rule reachable_consistent)
  then have d: "distinct (keys s)" and dm: "set (keys s) = dom (imagePtrs s)"
    and n: "nbImages (memUsage s) = of_nat (length (keys s))"
    and cs: "contentSize (memUsage s) = sum_list (map (\<lambda>k. memorySize (the (imagePtrs s k))) (keys s))"
    by (simp_all add: consistent_def)
  have card: "card (dom (imagePtrs s)) = length (keys s)"
    using d dm by (metis distinct_card)
  have sum: "contentSize (memUsage s) = (\<Sum>k\<in>dom (imagePtrs s). memorySize (the (imagePtrs s k)))"
    using cs d dm by (simp add: sum_list_distinct_conv_sum_set)
  show ?thesis
    using dm n card sum sint_of_nat_small [of "length (keys s)"]
      sint_sum_word [of "\<lambda>k. memorySize (the (imagePtrs s k))" "dom (imagePtrs s)"]
    by simp
qed

theorem reachable_invariant_witness:
  "reachable (cache_of 1000000 2000000
     [(reqKey_of TUChar ''a'' 0, entry TUChar 1 1000 300 1),
      (reqKey_of TUChar ''b'' 0, entry TUChar 2 1000 300 2)])
   \<and> (let s = cache_of 1000000 2000000
     [(reqKey_of TUChar ''a'' 0, entry TUChar 1 1000 300 1),
      (reqKey_of TUChar ''b'' 0, entry TUChar 2 1000 300 2)] in
     set (keys s) = dom (imagePtrs s)
    \<and> nbImages (memUsage s) = of_nat (card (dom (imagePtrs s)))
    \<and> contentSize (memUsage s) = (\<Sum>k\<in>dom (imagePtrs s). memorySize (the (imagePtrs s k)))
    \<and> sint (nbImages (memUsage s)) = int (card (dom (imagePtrs s)))
    \<and> sint (contentSize (memUsage s)) =
            (\<Sum>k\<in>dom (imagePtrs s). sint (memorySize (the (imagePtrs s k))))
    \<and> card (dom (imagePtrs s)) = 2 \<and> sint (contentSize (memUsage s)) = 600000)"
  using reachable_ab2 reachable_invariant [OF reachable_ab2]
  by (simp add: eval_defs)

subsection \<open>Construction and the width of the accounting\<close>

lemma sint_times_million:
  fixes c :: int32
  shows "sint (c * 1000000) = signed_take_bit 31 (sint c * 1000000)"
  by (simp add: sint_word_ariths)

lemma sint_times_million_exact:
  fixes c :: int32
  assumes "- 2147 \<le> sint c" and "sint c \<le> 2147"
  shows "sint (c * 1000000) = sint c * 1000000"
proof -
  have "- (2 ^ 31) \<le> sint c * 1000000" and "sint c * 1000000 < 2 ^ 31"
    using assms by simp_all
  then show ?thesis
    by (simp add: sint_times_million signed_take_bit_int_eq_self)
qed

lemma sint_times_million_wraps:
  fixes c :: int32
  assumes "2148 \<le> sint c"
  shows "sint (c * 1000000) \<noteq> sint c * 1000000"
proof -
  have "sint (c * 1000000) < 2 ^ 31"
    using sint_lt [of "c * 1000000"] by simp
  moreover have "2 ^ 31 \<le> sint c * 1000000"
    using assms by simp
  ultimately show ?thesis by simp
qed

text \<open>
  C8. The constructed cache has the accountant \<open>CacheMemoryUsage(capacity_MB, maxSize_MB)\<close>,
  no entry and an empty recency list. The accountant's thresholds are the two arguments
  times 1,000,000 (as \<open>int\<close>s; as integers for arguments within \<open>\<plusminus>2147\<close>), its
  \<open>nbImages\<close> and \<open>contentSize\<close> are 0. Nothing is validated: the constructor returns a
  cache for every pair of arguments, and for 2 and 1 the capacity exceeds the maximal size.
\<close>

theorem construction:
  "memUsage (new_ImageCache capacity_MB maxSize_MB) = new_CacheMemoryUsage capacity_MB maxSize_MB
   \<and> imagePtrs (new_ImageCache capacity_MB maxSize_MB) = Map.empty
   \<and> keys (new_ImageCache capacity_MB maxSize_MB) = []
   \<and> capacity (new_CacheMemoryUsage capacity_MB maxSize_MB) = capacity_MB * 1000000
   \<and> maxSize (new_CacheMemoryUsage capacity_MB maxSize_MB) = maxSize_MB * 1000000
   \<and> nbImages (new_CacheMemoryUsage capacity_MB maxSize_MB) = 0
   \<and> contentSize (new_CacheMemoryUsage capacity_MB maxSize_MB) = 0
   \<and> (- 2147 \<le> sint capacity_MB \<and> sint capacity_MB \<le> 2147 \<longrightarrow>
        sint (capacity (new_CacheMemoryUsage capacity_MB maxSize_MB)) = sint capacity_MB * 1000000)
   \<and> (- 2147 \<le> sint maxSize_MB \<and> sint maxSize_MB \<le> 2147 \<longrightarrow>
        sint (maxSize (new_CacheMemoryUsage capacity_MB maxSize_MB)) = sint maxSize_MB * 1000000)
   \<and> sint (maxSize (memUsage (new_ImageCache 2 1))) < sint (capacity (memUsage (new_ImageCache 2 1)))"
  by (simp add: new_ImageCache_def new_CacheMemoryUsage_def sint_times_million_exact)

theorem construction_witness:
  "- 2147 \<le> sint (64 :: int32) \<and> sint (64 :: int32) \<le> 2147
   \<and> - 2147 \<le> sint (128 :: int32) \<and> sint (128 :: int32) \<le> 2147
   \<and> sint (capacity (new_CacheMemoryUsage 64 128)) = 64000000
   \<and> sint (maxSize (new_CacheMemoryUsage 64 128)) = 128000000
   \<and> nbImages (memUsage (new_ImageCache 64 128)) = 0
   \<and> contentSize (memUsage (new_ImageCache 64 128)) = 0"
  using construction [of 64 128] by simp

lemma take_bit_32_mult_64:
  fixes x y :: int
  shows "take_bit 32 (take_bit 64 x * take_bit 64 y) = take_bit 32 (x * y)"
proof -
  have "take_bit 32 (take_bit 64 x * take_bit 64 y)
      = take_bit 32 (take_bit 32 (take_bit 64 x) * take_bit 32 (take_bit 64 y))"
    by (simp only: take_bit_mult)
  also have "\<dots> = take_bit 32 (take_bit 32 x * take_bit 32 y)"
    by simp
  also have "\<dots> = take_bit 32 (x * y)"
    by (simp only: take_bit_mult)
  finally show ?thesis .
qed

lemma ucast_times_down:
  fixes x y :: size_t
  shows "(ucast (x * y) :: int32) = ucast x * ucast y"
  by transfer (simp add: take_bit_32_mult_64)

lemma ucast_scast_up_down:
  fixes a :: int32
  shows "(ucast (scast a :: size_t) :: int32) = a"
  by transfer (simp add: take_bit_signed_take_bit)

lemma memSize_of_word:
  "memSize_of tp width height downscale =
     int_div width downscale * int_div height downscale * ucast (sizeof tp)"
  by (simp add: memSize_of_def ucast_times_down ucast_scast_up_down)

lemma MemorySize_word: "MemorySize tp img = Width img * Height img * ucast (sizeof tp)"
  by (simp add: MemorySize_def ucast_times_down ucast_scast_up_down)

lemma signed_take_bit_mult_left:
  fixes a b :: int
  shows "signed_take_bit n (signed_take_bit n a * b) = signed_take_bit n (a * b)"
proof -
  have "signed_take_bit n (signed_take_bit n a * b)
      = signed_take_bit n (signed_take_bit n (signed_take_bit n a) * signed_take_bit n b)"
    by (simp only: signed_take_bit_mult)
  also have "\<dots> = signed_take_bit n (signed_take_bit n a * signed_take_bit n b)"
    by simp
  also have "\<dots> = signed_take_bit n (a * b)"
    by (simp only: signed_take_bit_mult)
  finally show ?thesis .
qed

lemma ucast_sizeof_sint: "sint (ucast (sizeof tp) :: int32) = uint (sizeof tp)"
  by (cases tp) simp_all

text \<open>
  C9. The accountant's fields and the required size are 32-bit \<open>int\<close>s, so the products
  of the constructor and the product of \<open>get\<close> are the exact products reduced modulo
  2^32 into the signed range (\<open>signed_take_bit 31\<close>). Every \<open>capacity_MB\<close> or
  \<open>maxSize_MB\<close> of 2148 or more gives a threshold that is not the exact product; 2148
  gives a negative capacity, with which a one-byte image is refused by an empty cache;
  and a 32768 by 32768 float image (4 GiB) has required size 0 and is admitted directly
  into a 1 MB cache.
\<close>

theorem int_accounting_wraps:
  "sint (capacity (new_CacheMemoryUsage capacity_MB maxSize_MB))
     = signed_take_bit 31 (sint capacity_MB * 1000000)
   \<and> sint (maxSize (new_CacheMemoryUsage capacity_MB maxSize_MB))
     = signed_take_bit 31 (sint maxSize_MB * 1000000)
   \<and> (2148 \<le> sint capacity_MB \<longrightarrow>
        sint (capacity (new_CacheMemoryUsage capacity_MB maxSize_MB)) \<noteq> sint capacity_MB * 1000000)
   \<and> (2148 \<le> sint maxSize_MB \<longrightarrow>
        sint (maxSize (new_CacheMemoryUsage capacity_MB maxSize_MB)) \<noteq> sint maxSize_MB * 1000000)
   \<and> sint (capacity (new_CacheMemoryUsage 2148 maxSize_MB)) = - 2146967296
   \<and> sint (memSize_of tp width height downscale)
     = signed_take_bit 31
         (sint (int_div width downscale) * sint (int_div height downscale) * uint (sizeof tp))
   \<and> memSize_of TFloat 32768 32768 (shl1 0) = 0
   \<and> get (example_loader 1 1 1) TUChar ''a'' 0 (new_ImageCache 2148 2148)
     = (Inl NotEnoughSpace, new_ImageCache 2148 2148, [CallReadImageSize ''a''])
   \<and> get (example_loader 32768 32768 1) TFloat ''a'' 0 (new_ImageCache 1 2)
     = (Inr (Some 1), cache_of 1000000 2000000 [(reqKey_of TFloat ''a'' 0, entry TFloat 1 32768 32768 2)],
        [CallReadImageSize ''a'', CallReadImage ''a''])
   \<and> contentSize (memUsage (cache_of 1000000 2000000
         [(reqKey_of TFloat ''a'' 0, entry TFloat 1 32768 32768 2)])) = 0"
proof -
  have 1: "sint (memSize_of tp width height downscale)
     = signed_take_bit 31
         (sint (int_div width downscale) * sint (int_div height downscale) * uint (sizeof tp))"
    unfolding memSize_of_word sint_word_ariths ucast_sizeof_sint
    by (simp add: signed_take_bit_mult_left)
  have 2: "memSize_of TFloat 32768 32768 (shl1 0) = 0"
    by (simp add: eval_defs)
  have 3: "get (example_loader 1 1 1) TUChar ''a'' 0 (new_ImageCache 2148 2148)
     = (Inl NotEnoughSpace, new_ImageCache 2148 2148, [CallReadImageSize ''a''])"
    by (simp add: eval_defs evict_loop.simps)
  have 4: "get (example_loader 32768 32768 1) TFloat ''a'' 0 (new_ImageCache 1 2)
     = (Inr (Some 1), cache_of 1000000 2000000 [(reqKey_of TFloat ''a'' 0, entry TFloat 1 32768 32768 2)],
        [CallReadImageSize ''a'', CallReadImage ''a''])"
    by (simp add: eval_defs fun_eq_iff)
  have 5: "contentSize (memUsage (cache_of 1000000 2000000
         [(reqKey_of TFloat ''a'' 0, entry TFloat 1 32768 32768 2)])) = 0"
    by (simp add: eval_defs)
  have 6: "sint (capacity (new_CacheMemoryUsage 2148 maxSize_MB)) = - 2146967296"
    by (simp add: new_CacheMemoryUsage_def)
  show ?thesis
    unfolding 2 3 4 5
    using 1 6 sint_times_million_wraps
    by (simp add: new_CacheMemoryUsage_def sint_times_million)
qed

theorem int_accounting_wraps_witness:
  "2148 \<le> sint (3000 :: int32)
   \<and> sint (capacity (new_CacheMemoryUsage 3000 4000)) \<noteq> sint (3000 :: int32) * 1000000
   \<and> 2148 \<le> sint (4000 :: int32)
   \<and> sint (maxSize (new_CacheMemoryUsage 3000 4000)) \<noteq> sint (4000 :: int32) * 1000000
   \<and> sint (capacity (new_CacheMemoryUsage 3000 4000)) = - 1294967296"
  using int_accounting_wraps [of 3000 4000] by (simp add: new_CacheMemoryUsage_def)

subsection \<open>A proof rule for one call of get\<close>

lemma evict_loop_preserves:
  assumes "evict_loop c s = (e, s')" and "P s"
    and step: "\<And>s0 key val. P s0 \<Longrightarrow> imagePtrs s0 key = Some val \<Longrightarrow> useCount val = 1 \<Longrightarrow>
        key \<in> set (keys s0) \<Longrightarrow> P (evict key val s0)"
  shows "P s'"
  using assms(1,2)
proof (induction c s rule: evict_loop.induct)
  case (1 c s)
  show ?case
  proof (cases "0 < sint c")
    case False
    with "1.prems" show ?thesis by (simp add: evict_loop.simps)
  next
    case True
    show ?thesis
    proof (cases "find_unused (imagePtrs s) (keys s)")
      case (Inl err)
      with True "1.prems" show ?thesis by (simp add: evict_loop.simps)
    next
      case (Inr found)
      show ?thesis
      proof (cases found)
        case None
        with True Inr "1.prems" show ?thesis by (simp add: evict_loop.simps)
      next
        case (Some key)
        with Inr obtain val where v: "imagePtrs s key = Some val" "useCount val = 1" "key \<in> set (keys s)"
          by (auto dest: find_unused_Some)
        have run: "evict_loop c (evict key val s) = (e, s')"
          using True Inr Some v "1.prems"(1) by (simp add: evict_loop.simps [of c s])
        have "P (evict key val s)"
          using "1.prems"(2) v by (rule step)
        with "1.IH" [OF True Inr Some v(1) run] show ?thesis .
      qed
    qed
  qed
qed

lemma get_cases:
  assumes call: "get ld tp fname level s = (r, s', evs)" and "P s"
    and ev: "\<And>s0 key val. P s0 \<Longrightarrow> imagePtrs s0 key = Some val \<Longrightarrow> useCount val = 1 \<Longrightarrow>
        key \<in> set (keys s0) \<Longrightarrow> P (evict key val s0)"
    and stop: "\<And>s0. P s0 \<Longrightarrow> Q s0"
    and admit: "\<And>s0 es r1 s1 es1. P s0 \<Longrightarrow>
        load_and_return ld tp (reqKey_of tp fname level) s0 es = (r1, s1, es1) \<Longrightarrow> Q s1"
    and hit: "\<And>r1 s1. reqKey_of tp fname level \<in> set (keys s) \<Longrightarrow>
        fetch tp (reqKey_of tp fname level)
          (s\<lparr>keys := remove1 (reqKey_of tp fname level) (keys s) @ [reqKey_of tp fname level]\<rparr>)
          = (r1, s1) \<Longrightarrow> Q s1"
  shows "Q s'"
proof (cases "reqKey_of tp fname level \<in> set (keys s)")
  case True
  with call hit show ?thesis
    by (auto simp: get_def Let_def split: prod.splits)
next
  case False
  define k where "k = reqKey_of tp fname level"
  have gm: "get_miss ld tp k s = (r, s', evs)"
    using call False by (simp add: get_def k_def)
  have ea: "evict_and_admit ld tp k m s es = (r, s', evs) \<Longrightarrow> Q s'" for m es
  proof -
    assume e: "evict_and_admit ld tp k m s es = (r, s', evs)"
    let ?c = "m + contentSize (memUsage s) - capacity (memUsage s)"
    show ?thesis
    proof (cases "find_single (imagePtrs s) ?c (keys s)")
      case (Inl err)
      with e assms(2) stop show ?thesis by (simp add: evict_and_admit_def Let_def)
    next
      case (Inr found)
      show ?thesis
      proof (cases found)
        case (Some kv)
        obtain key val where kv: "kv = (key, val)" by (cases kv)
        from Inr Some kv have "imagePtrs s key = Some val" "useCount val = 1" "key \<in> set (keys s)"
          by (auto dest: find_single_Some)
        then have "P (evict key val s)"
          using assms(2) by (simp add: ev)
        moreover have "load_and_return ld tp k (evict key val s) es = (r, s', evs)"
          using e Inr Some kv by (simp add: evict_and_admit_def Let_def)
        ultimately show ?thesis
          using admit by (simp add: k_def)
      next
        case None
        obtain err s1 where l: "evict_loop ?c s = (err, s1)" by (cases "evict_loop ?c s")
        have p1: "P s1"
          using l assms(2) ev by (rule evict_loop_preserves)
        show ?thesis
          using e Inr None l p1 stop [OF p1] admit [OF p1]
          by (cases err) (auto simp: evict_and_admit_def Let_def k_def split: if_splits)
      qed
    qed
  qed
  show ?thesis
    using gm assms(2) stop [OF assms(2)] admit [OF assms(2)] ea
    by (auto simp: get_miss_def Let_def k_def split: option.splits if_splits prod.splits)
qed

subsection \<open>Only entries that nobody else holds are evicted\<close>

lemma fetch_imagePtrs:
  "fetch tp key s = (r, s') \<Longrightarrow>
     imagePtrs s' k = (if k = key then map_option (acquire tp) (imagePtrs s k) else imagePtrs s k)"
  by (auto simp: fetch_def acquire_def split: option.splits)

lemma load_imagePtrs:
  "load ld tp key s = (e, s', evs) \<Longrightarrow> imagePtrs s k = Some v \<Longrightarrow> imagePtrs s' k = Some v"
  by (auto simp: load_def Let_def map_insert_def split: option.splits)

lemma load_and_return_dom:
  "load_and_return ld tp key s es = (r, s', evs) \<Longrightarrow> imagePtrs s k = Some v \<Longrightarrow>
     imagePtrs s' k \<noteq> None"
proof -
  assume lr: "load_and_return ld tp key s es = (r, s', evs)" and m: "imagePtrs s k = Some v"
  obtain e s1 es1 where l: "load ld tp key s = (e, s1, es1)" by (cases "load ld tp key s")
  from load_imagePtrs [OF l m] have m1: "imagePtrs s1 k = Some v" .
  show ?thesis
  proof (cases e)
    case (Some err)
    with lr l m1 show ?thesis by (simp add: load_and_return_def)
  next
    case None
    obtain r2 s2 where f: "fetch tp key s1 = (r2, s2)" by (cases "fetch tp key s1")
    with lr l None have "s' = s2" by (simp add: load_and_return_def)
    with fetch_imagePtrs [OF f, of k] m1 show ?thesis by auto
  qed
qed

text \<open>
  C4. No call of \<open>get\<close> removes an entry whose use count is not 1: whenever a key is
  mapped before the call and not mapped after it, in whichever pass it was evicted, the
  value it had (whose use count no step before the eviction changes) has use count
  exactly 1. So an entry with an outside owner (use count above 1) is still mapped after
  the call.
\<close>

theorem evicted_only_unreferenced:
  assumes "get ld tp fname level s = (r, s', evs)"
    and "imagePtrs s k = Some v"
    and "imagePtrs s' k = None"
  shows "useCount v = 1"
proof -
  define P where "P s0 \<longleftrightarrow> (\<forall>k v. imagePtrs s k = Some v \<longrightarrow>
      imagePtrs s0 k = Some v \<or> (imagePtrs s0 k = None \<and> useCount v = 1))" for s0 :: ImageCache
  define Q where "Q s0 \<longleftrightarrow> (\<forall>k v. imagePtrs s k = Some v \<longrightarrow>
      imagePtrs s0 k = None \<longrightarrow> useCount v = 1)" for s0 :: ImageCache
  have "Q s'"
  proof (rule get_cases [OF assms(1), of P Q])
    show "P s" by (simp add: P_def)
  next
    fix s0 key val
    assume "P s0" "imagePtrs s0 key = Some val" "useCount val = 1"
    then show "P (evict key val s0)"
      unfolding P_def evict_def by (simp, metis option.inject option.distinct(1))
  next
    fix s0 assume "P s0" then show "Q s0" unfolding P_def Q_def by fastforce
  next
    fix s0 es r1 s1 es1
    assume "P s0" "load_and_return ld tp (reqKey_of tp fname level) s0 es = (r1, s1, es1)"
    then show "Q s1"
      unfolding P_def Q_def using load_and_return_dom by fastforce
  next
    fix r1 s1
    assume "fetch tp (reqKey_of tp fname level)
          (s\<lparr>keys := remove1 (reqKey_of tp fname level) (keys s) @ [reqKey_of tp fname level]\<rparr>)
          = (r1, s1)"
    from fetch_imagePtrs [OF this] show "Q s1"
      unfolding Q_def by (auto split: if_splits)
  qed
  with assms(2,3) show ?thesis
    unfolding Q_def by blast
qed

theorem evicted_only_unreferenced_witness:
  "get (example_loader 1000 800 3) TUChar ''c'' 0
     (cache_of 1000000 2000000
        [(reqKey_of TUChar ''a'' 0, entry TUChar 1 1000 300 1),
         (reqKey_of TUChar ''b'' 0, entry TUChar 2 1000 300 2)])
   = (Inr (Some 3),
      cache_of 1000000 2000000
        [(reqKey_of TUChar ''b'' 0, entry TUChar 2 1000 300 2),
         (reqKey_of TUChar ''c'' 0, entry TUChar 3 1000 800 2)],
      [CallReadImageSize ''c'', CallReadImage ''c''])
   \<and> imagePtrs (cache_of 1000000 2000000
        [(reqKey_of TUChar ''a'' 0, entry TUChar 1 1000 300 1),
         (reqKey_of TUChar ''b'' 0, entry TUChar 2 1000 300 2)]) (reqKey_of TUChar ''a'' 0)
       = Some (entry TUChar 1 1000 300 1)
   \<and> imagePtrs (cache_of 1000000 2000000
        [(reqKey_of TUChar ''b'' 0, entry TUChar 2 1000 300 2),
         (reqKey_of TUChar ''c'' 0, entry TUChar 3 1000 800 2)]) (reqKey_of TUChar ''a'' 0) = None
   \<and> useCount (entry TUChar 1 1000 300 1) = 1"
proof -
  have call: "get (example_loader 1000 800 3) TUChar ''c'' 0
     (cache_of 1000000 2000000
        [(reqKey_of TUChar ''a'' 0, entry TUChar 1 1000 300 1),
         (reqKey_of TUChar ''b'' 0, entry TUChar 2 1000 300 2)])
   = (Inr (Some 3),
      cache_of 1000000 2000000
        [(reqKey_of TUChar ''b'' 0, entry TUChar 2 1000 300 2),
         (reqKey_of TUChar ''c'' 0, entry TUChar 3 1000 800 2)],
      [CallReadImageSize ''c'', CallReadImage ''c''])"
    by (simp add: eval_defs evict_loop.simps fun_eq_iff)
  have before: "imagePtrs (cache_of 1000000 2000000
        [(reqKey_of TUChar ''a'' 0, entry TUChar 1 1000 300 1),
         (reqKey_of TUChar ''b'' 0, entry TUChar 2 1000 300 2)]) (reqKey_of TUChar ''a'' 0)
       = Some (entry TUChar 1 1000 300 1)"
    by (simp add: cache_of_def)
  have after: "imagePtrs (cache_of 1000000 2000000
        [(reqKey_of TUChar ''b'' 0, entry TUChar 2 1000 300 2),
         (reqKey_of TUChar ''c'' 0, entry TUChar 3 1000 800 2)]) (reqKey_of TUChar ''a'' 0) = None"
    by (simp add: cache_of_def reqKey_of_def)
  from evicted_only_unreferenced [OF call before after] call before after
  show ?thesis by blast
qed

subsection \<open>The typed accessor on a hit\<close>

lemma ColorTypeInfo_inj:
  "ColorTypeInfo_size tp = ColorTypeInfo_size tp' \<Longrightarrow>
   ColorTypeInfo_typeDesc tp = ColorTypeInfo_typeDesc tp' \<Longrightarrow> tp = tp'"
  by (cases tp; cases tp') simp_all

lemma typed_evict: "typed s \<Longrightarrow> typed (evict key val s)"
  by (auto simp: typed_def evict_def)

lemma typed_fetch: "typed s \<Longrightarrow> fetch tp key s = (r, s') \<Longrightarrow> typed s'"
  unfolding typed_def
  by (auto simp: fetch_imagePtrs get_acquire split: if_splits)

lemma typed_load:
  assumes "typed s" and "load ld tp (reqKey_of tp fname level) s = (e, s', evs)"
  shows "typed s'"
proof (cases "readImage ld fname")
  case None
  with assms show ?thesis by (simp add: load_def reqKey_of_def)
next
  case (Some raw)
  have same: "ColorTypeInfo_size tpa = ColorTypeInfo_size tp \<Longrightarrow>
      ColorTypeInfo_typeDesc tpa = ColorTypeInfo_typeDesc tp \<Longrightarrow>
      \<exists>y. CacheValue_get tpa (wrap tp p) = Some y" for tpa p
    using ColorTypeInfo_inj [of tpa tp] by (simp add: get_wrap)
  from Some assms show ?thesis
    unfolding typed_def
    by (auto simp: load_def Let_def map_insert_def reqKey_of_def same split: if_splits)
qed

lemma typed_load_and_return:
  "typed s \<Longrightarrow> load_and_return ld tp (reqKey_of tp fname level) s es = (r, s', evs) \<Longrightarrow> typed s'"
  by (auto simp: load_and_return_def split: prod.splits option.splits
      dest: typed_load typed_fetch)

lemma typed_get:
  assumes "typed s" and "get ld tp fname level s = (r, s', evs)"
  shows "typed s'"
proof (rule get_cases [OF assms(2), of typed typed])
  show "typed s" by fact
next
  fix r1 s1
  assume "fetch tp (reqKey_of tp fname level)
      (s\<lparr>keys := remove1 (reqKey_of tp fname level) (keys s) @ [reqKey_of tp fname level]\<rparr>)
      = (r1, s1)"
  moreover have "typed (s\<lparr>keys := remove1 (reqKey_of tp fname level) (keys s) @ [reqKey_of tp fname level]\<rparr>)"
    using assms(1) by (simp add: typed_def)
  ultimately show "typed s1" by (rule typed_fetch [rotated])
qed (auto intro: typed_evict typed_load_and_return)

lemma typed_with_use_count:
  "typed s \<Longrightarrow> imagePtrs s k = Some v \<Longrightarrow>
     typed (s\<lparr>imagePtrs := (imagePtrs s)(k \<mapsto> with_use_count f v)\<rparr>)"
  unfolding typed_def by (auto simp: get_with_use_count)

lemma reachable_typed: "reachable s \<Longrightarrow> typed s"
proof (induction rule: reachable.induct)
  case (constructed capacity_MB maxSize_MB)
  show ?case by (simp add: typed_def new_ImageCache_def)
next
  case (called s ld tp fname level r s' evs)
  then show ?case by (auto intro: typed_get)
next
  case (dropped s k)
  then show ?case
    by (auto simp: handle_dropped_def typed_with_use_count split: option.splits)
next
  case (copied s k)
  then show ?case
    by (auto simp: handle_copied_def typed_with_use_count split: option.splits)
qed

text \<open>
  C10. The map from the six pixel types to (channel count, sample type) is injective,
  and in every reachable state a call \<open>get<TPix>(filename, level)\<close> that finds its key
  in the recency list returns a handle that is not null (the address of the buffer the
  entry holds in the slot of \<open>TPix\<close>), without calling the loader.
\<close>

theorem hit_returns_buffer:
  assumes "reachable s" and "reqKey_of tp fname level \<in> set (keys s)"
  shows "inj (\<lambda>tp. (ColorTypeInfo_size tp, ColorTypeInfo_typeDesc tp))
    \<and> (\<exists>v p s'. imagePtrs s (reqKey_of tp fname level) = Some v
          \<and> CacheValue_get tp v = Some p
          \<and> get ld tp fname level s = (Inr (Some (ptr p)), s', []))"
proof -
  have inj: "inj (\<lambda>tp. (ColorTypeInfo_size tp, ColorTypeInfo_typeDesc tp))"
    by (auto intro!: injI dest: ColorTypeInfo_inj)
  from assms(1) have "consistent s" and t: "typed s"
    by (simp_all add: reachable_consistent reachable_typed)
  with assms(2) obtain v where v: "imagePtrs s (reqKey_of tp fname level) = Some v"
    by (auto simp: consistent_def)
  with t obtain p where p: "CacheValue_get tp v = Some p"
    unfolding typed_def by (fastforce simp: reqKey_of_def)
  have "\<exists>s'. get ld tp fname level s = (Inr (Some (ptr p)), s', [])"
    using assms(2) v p by (simp add: get_def fetch_def Let_def)
  with inj v p show ?thesis by blast
qed

theorem hit_returns_buffer_witness:
  "reachable (cache_of 1000000 2000000
     [(reqKey_of TUChar ''a'' 0, entry TUChar 1 1000 300 1),
      (reqKey_of TUChar ''b'' 0, entry TUChar 2 1000 300 2)])
   \<and> reqKey_of TUChar ''a'' 0 \<in> set (keys (cache_of 1000000 2000000
     [(reqKey_of TUChar ''a'' 0, entry TUChar 1 1000 300 1),
      (reqKey_of TUChar ''b'' 0, entry TUChar 2 1000 300 2)]))
   \<and> fst (get (example_loader 5 5 9) TUChar ''a'' 0 (cache_of 1000000 2000000
     [(reqKey_of TUChar ''a'' 0, entry TUChar 1 1000 300 1),
      (reqKey_of TUChar ''b'' 0, entry TUChar 2 1000 300 2)])) = Inr (Some 1)"
proof -
  have mem: "reqKey_of TUChar ''a'' 0 \<in> set (keys (cache_of 1000000 2000000
     [(reqKey_of TUChar ''a'' 0, entry TUChar 1 1000 300 1),
      (reqKey_of TUChar ''b'' 0, entry TUChar 2 1000 300 2)]))"
    by (simp add: cache_of_def)
  from hit_returns_buffer [OF reachable_ab2 mem, of "example_loader 5 5 9"] reachable_ab2 mem
  show ?thesis
    by (auto simp: cache_of_def entry_def wrap_def CacheValue_empty_def reqKey_of_def)
qed

subsection \<open>Two calls in a row\<close>

lemma get_result_cases:
  assumes call: "get ld tp fname level s = (r, s', evs)" and "P s"
    and ev: "\<And>s0 key val. P s0 \<Longrightarrow> imagePtrs s0 key = Some val \<Longrightarrow> useCount val = 1 \<Longrightarrow>
        key \<in> set (keys s0) \<Longrightarrow> P (evict key val s0)"
    and stop: "\<And>s0 e. P s0 \<Longrightarrow> reqKey_of tp fname level \<notin> set (keys s) \<Longrightarrow>
        Q (Inl e) s0 [CallReadImageSize fname]"
    and admit: "\<And>s0 r1 s1 es1. P s0 \<Longrightarrow> reqKey_of tp fname level \<notin> set (keys s) \<Longrightarrow>
        load_and_return ld tp (reqKey_of tp fname level) s0 [CallReadImageSize fname] = (r1, s1, es1) \<Longrightarrow>
        Q r1 s1 es1"
    and hit: "\<And>r1 s1. reqKey_of tp fname level \<in> set (keys s) \<Longrightarrow>
        fetch tp (reqKey_of tp fname level)
          (s\<lparr>keys := remove1 (reqKey_of tp fname level) (keys s) @ [reqKey_of tp fname level]\<rparr>)
          = (r1, s1) \<Longrightarrow> Q r1 s1 []"
  shows "Q r s' evs"
proof (cases "reqKey_of tp fname level \<in> set (keys s)")
  case True
  with call hit show ?thesis
    by (auto simp: get_def Let_def split: prod.splits)
next
  case False
  define k where "k = reqKey_of tp fname level"
  have fk: "filename k = fname" by (simp add: k_def reqKey_of_def)
  note stop' = stop [OF _ False] and admit' = admit [OF _ False, folded k_def]
  have gm: "get_miss ld tp k s = (r, s', evs)"
    using call False by (simp add: get_def k_def)
  have ea: "evict_and_admit ld tp k m s [CallReadImageSize fname] = (r, s', evs) \<Longrightarrow> Q r s' evs" for m
  proof -
    assume e: "evict_and_admit ld tp k m s [CallReadImageSize fname] = (r, s', evs)"
    let ?c = "m + contentSize (memUsage s) - capacity (memUsage s)"
    show ?thesis
    proof (cases "find_single (imagePtrs s) ?c (keys s)")
      case (Inl err)
      with e assms(2) stop' show ?thesis by (auto simp: evict_and_admit_def Let_def)
    next
      case (Inr found)
      show ?thesis
      proof (cases found)
        case (Some kv)
        obtain key val where kv: "kv = (key, val)" by (cases kv)
        from Inr Some kv have "imagePtrs s key = Some val" "useCount val = 1" "key \<in> set (keys s)"
          by (auto dest: find_single_Some)
        then have "P (evict key val s)"
          using assms(2) by (simp add: ev)
        moreover have "load_and_return ld tp k (evict key val s) [CallReadImageSize fname] = (r, s', evs)"
          using e Inr Some kv by (simp add: evict_and_admit_def Let_def)
        ultimately show ?thesis
          by (rule admit')
      next
        case None
        obtain err s1 where l: "evict_loop ?c s = (err, s1)" by (cases "evict_loop ?c s")
        have p1: "P s1"
          using l assms(2) ev by (rule evict_loop_preserves)
        show ?thesis
          using e Inr None l stop' [OF p1] admit' [OF p1]
          by (cases err) (auto simp: evict_and_admit_def Let_def split: if_splits)
      qed
    qed
  qed
  show ?thesis
    using gm stop' [OF assms(2)] admit' [OF assms(2)] ea
    by (auto simp: get_miss_def Let_def fk split: option.splits if_splits prod.splits)
qed

lemma fetch_Inr:
  "fetch tp key s = (Inr h, s') \<Longrightarrow>
     \<exists>v. imagePtrs s' key = Some v \<and> h = map_option ptr (CacheValue_get tp v)"
  by (auto simp: fetch_def get_acquire split: option.splits)

lemma load_and_return_fetch:
  assumes "load_and_return ld tp key s es = (Inr h, s', evs)"
  shows "\<exists>s1. load ld tp key s = (None, s1, [CallReadImage (filename key)])
    \<and> fetch tp key s1 = (Inr h, s') \<and> evs = es @ [CallReadImage (filename key)]"
proof -
  obtain e s1 es1 where l: "load ld tp key s = (e, s1, es1)" by (cases "load ld tp key s")
  show ?thesis
  proof (cases e)
    case (Some err)
    with assms l show ?thesis by (simp add: load_and_return_def)
  next
    case None
    with l have "es1 = [CallReadImage (filename key)]"
      by (auto simp: load_def Let_def split: option.splits)
    with assms l None show ?thesis
      by (auto simp: load_and_return_def split: prod.splits)
  qed
qed

lemma get_Inr:
  assumes "get ld tp fname level s = (Inr h, s', evs)"
  shows "(\<exists>v. imagePtrs s' (reqKey_of tp fname level) = Some v
            \<and> h = map_option ptr (CacheValue_get tp v))
    \<and> (\<exists>ks. keys s' = ks @ [reqKey_of tp fname level])
    \<and> evs = (if reqKey_of tp fname level \<in> set (keys s) then []
              else [CallReadImageSize fname, CallReadImage fname])"
proof -
  let ?k = "reqKey_of tp fname level"
  define Q where "Q r s1 es \<longleftrightarrow> (\<forall>h. r = Inr h \<longrightarrow>
      (\<exists>v. imagePtrs s1 ?k = Some v \<and> h = map_option ptr (CacheValue_get tp v))
    \<and> (\<exists>ks. keys s1 = ks @ [?k])
    \<and> es = (if ?k \<in> set (keys s) then [] else [CallReadImageSize fname, CallReadImage fname]))"
    for r :: "error + nat option" and s1 :: ImageCache and es :: "event list"
  have fk: "filename ?k = fname" by (simp add: reqKey_of_def)
  have "Q (Inr h) s' evs"
  proof (rule get_result_cases [OF assms, of "\<lambda>s. True" Q])
    fix s0 r1 s1 es1
    assume miss: "?k \<notin> set (keys s)"
      and lr: "load_and_return ld tp ?k s0 [CallReadImageSize fname] = (r1, s1, es1)"
    show "Q r1 s1 es1"
      unfolding Q_def
    proof (intro allI impI)
      fix h1 assume "r1 = Inr h1"
      with load_and_return_fetch [of ld tp ?k s0 "[CallReadImageSize fname]" h1 s1 es1] lr
      obtain s2 where l: "load ld tp ?k s0 = (None, s2, [CallReadImage fname])"
        and f: "fetch tp ?k s2 = (Inr h1, s1)"
        and es: "es1 = [CallReadImageSize fname, CallReadImage fname]"
        by (auto simp: fk)
      from l have "keys s2 = keys s0 @ [?k]"
        by (auto simp: load_def Let_def split: option.splits)
      with f have "keys s1 = keys s0 @ [?k]"
        by (auto simp: fetch_def split: option.splits)
      with fetch_Inr [OF f] es miss
      show "(\<exists>v. imagePtrs s1 ?k = Some v \<and> h1 = map_option ptr (CacheValue_get tp v))
        \<and> (\<exists>ks. keys s1 = ks @ [?k])
        \<and> es1 = (if ?k \<in> set (keys s) then [] else [CallReadImageSize fname, CallReadImage fname])"
        by simp
    qed
  next
    fix r1 s1
    assume hit: "?k \<in> set (keys s)"
      and f: "fetch tp ?k (s\<lparr>keys := remove1 ?k (keys s) @ [?k]\<rparr>) = (r1, s1)"
    show "Q r1 s1 []"
      unfolding Q_def
    proof (intro allI impI)
      fix h1 assume r1: "r1 = Inr h1"
      from f have "keys s1 = remove1 ?k (keys s) @ [?k]"
        by (auto simp: fetch_def split: option.splits)
      with fetch_Inr [OF f [unfolded r1]] hit
      show "(\<exists>v. imagePtrs s1 ?k = Some v \<and> h1 = map_option ptr (CacheValue_get tp v))
        \<and> (\<exists>ks. keys s1 = ks @ [?k])
        \<and> [] = (if ?k \<in> set (keys s) then [] else [CallReadImageSize fname, CallReadImage fname])"
        by simp
    qed
  qed (simp_all add: Q_def)
  then show ?thesis by (simp add: Q_def)
qed

lemma hit_call:
  assumes "reachable s" and "reqKey_of tp fname level \<in> set (keys s)"
  shows "\<exists>v p s'. imagePtrs s (reqKey_of tp fname level) = Some v
          \<and> CacheValue_get tp v = Some p
          \<and> get ld tp fname level s = (Inr (Some (ptr p)), s', [])
          \<and> keys s' = remove1 (reqKey_of tp fname level) (keys s) @ [reqKey_of tp fname level]"
proof -
  from assms(1) have "consistent s" and t: "typed s"
    by (simp_all add: reachable_consistent reachable_typed)
  with assms(2) obtain v where v: "imagePtrs s (reqKey_of tp fname level) = Some v"
    by (auto simp: consistent_def)
  with t obtain p where p: "CacheValue_get tp v = Some p"
    unfolding typed_def by (fastforce simp: reqKey_of_def)
  show ?thesis
    using assms(2) v p by (simp add: get_def fetch_def Let_def)
qed

text \<open>
  C6. In a reachable state, let a call of \<open>get\<close> for (path, pixel type, level) return
  a handle. If the key was not resident, that call probed the size once and read the
  image once; if it was resident, it did not call the loader. The handle is not null,
  and a second call with the same arguments, whatever the loader would answer, calls
  the loader not at all, returns the same buffer address, and erases the key from the
  recency list and appends it at the most recently used end (where the first call left
  it, so the list is the same). So the two calls together read the image exactly once
  when the key was not resident before them.
\<close>

theorem get_twice:
  assumes "reachable s"
    and "get ld tp fname level s = (Inr h, s1, evs1)"
  shows "evs1 = (if reqKey_of tp fname level \<in> set (keys s) then []
                 else [CallReadImageSize fname, CallReadImage fname])
    \<and> (\<exists>a s2. h = Some a
          \<and> get ld' tp fname level s1 = (Inr (Some a), s2, [])
          \<and> keys s2 = remove1 (reqKey_of tp fname level) (keys s1) @ [reqKey_of tp fname level]
          \<and> last (keys s2) = reqKey_of tp fname level
          \<and> keys s2 = keys s1)"
proof -
  let ?k = "reqKey_of tp fname level"
  from get_Inr [OF assms(2)] obtain v ks
    where evs: "evs1 = (if ?k \<in> set (keys s) then []
                        else [CallReadImageSize fname, CallReadImage fname])"
      and v: "imagePtrs s1 ?k = Some v" and h: "h = map_option ptr (CacheValue_get tp v)"
      and ks: "keys s1 = ks @ [?k]" by auto
  have r1: "reachable s1" using assms(1,2) by (rule reachable.called)
  have mem: "?k \<in> set (keys s1)" using ks by simp
  from hit_call [OF r1 mem, of ld'] v obtain p s2
    where p: "CacheValue_get tp v = Some p"
      and call2: "get ld' tp fname level s1 = (Inr (Some (ptr p)), s2, [])"
      and keys2: "keys s2 = remove1 ?k (keys s1) @ [?k]" by auto
  from r1 have "distinct (keys s1)"
    using reachable_consistent by (auto simp: consistent_def)
  with ks have "remove1 ?k (keys s1) = ks"
    by (simp add: remove1_append)
  with keys2 ks have same: "keys s2 = keys s1" by simp
  have lst: "last (keys s2) = ?k" using keys2 by simp
  have hp: "h = Some (ptr p)" using h p by simp
  show ?thesis
    using evs hp call2 keys2 lst same by blast
qed

theorem get_twice_witness:
  "reachable (new_ImageCache 1 2)
   \<and> reqKey_of TUChar ''a'' 0 \<notin> set (keys (new_ImageCache 1 2))
   \<and> get (example_loader 1000 300 1) TUChar ''a'' 0 (new_ImageCache 1 2) =
      (Inr (Some 1),
       cache_of 1000000 2000000 [(reqKey_of TUChar ''a'' 0, entry TUChar 1 1000 300 2)],
       [CallReadImageSize ''a'', CallReadImage ''a''])
   \<and> get (example_loader 5 5 9) TUChar ''a'' 0
        (cache_of 1000000 2000000 [(reqKey_of TUChar ''a'' 0, entry TUChar 1 1000 300 2)]) =
      (Inr (Some 1),
       cache_of 1000000 2000000 [(reqKey_of TUChar ''a'' 0, entry TUChar 1 1000 300 3)],
       [])"
proof -
  have miss: "reqKey_of TUChar ''a'' 0 \<notin> set (keys (new_ImageCache 1 2))"
    by (simp add: new_ImageCache_def)
  have call: "get (example_loader 1000 300 1) TUChar ''a'' 0 (new_ImageCache 1 2) =
      (Inr (Some 1),
       cache_of 1000000 2000000 [(reqKey_of TUChar ''a'' 0, entry TUChar 1 1000 300 2)],
       [CallReadImageSize ''a'', CallReadImage ''a''])"
    by (simp add: eval_defs fun_eq_iff)
  have again: "get (example_loader 5 5 9) TUChar ''a'' 0
        (cache_of 1000000 2000000 [(reqKey_of TUChar ''a'' 0, entry TUChar 1 1000 300 2)]) =
      (Inr (Some 1),
       cache_of 1000000 2000000 [(reqKey_of TUChar ''a'' 0, entry TUChar 1 1000 300 3)],
       [])"
    by (simp add: eval_defs fun_eq_iff)
  from get_twice [OF reachable.constructed call, of "example_loader 5 5 9"]
    reachable.constructed [of 1 2] miss call again
  show ?thesis by simp
qed

subsection \<open>The required size and direct admission\<close>

lemma signed_take_bit_31_id:
  fixes k :: int
  assumes "0 \<le> k" and "k < 2 ^ 31"
  shows "signed_take_bit 31 k = k"
proof (rule signed_take_bit_int_eq_self)
  show "- (2 ^ 31) \<le> k" using assms(1) by simp
  show "k < 2 ^ 31" by fact
qed

lemma sint_nonneg_uint:
  fixes w :: int32
  assumes "0 \<le> sint w"
  shows "sint w = uint w" and "uint w < 2 ^ 31"
proof -
  show lt: "uint w < 2 ^ 31"
  proof (rule ccontr)
    assume "\<not> uint w < 2 ^ 31"
    then have "signed_take_bit 31 (uint w) \<le> uint w - 2 ^ Suc 31"
      by (intro signed_take_bit_int_less_eq) simp
    then have a: "signed_take_bit 31 (uint w) \<le> uint w - 4294967296"
      by simp
    have b: "uint w < 4294967296"
      using uint_lt2p [of w] by simp
    have c: "sint w = signed_take_bit 31 (uint w)"
      by (simp add: sint_uint)
    from a b c assms show False by linarith
  qed
  have "signed_take_bit 31 (uint w) = uint w"
    using lt by (intro signed_take_bit_31_id) simp_all
  then show "sint w = uint w"
    by (simp add: sint_uint)
qed

lemma sint_shl1:
  fixes l :: int32
  assumes "unat l < 31"
  shows "sint (shl1 l) = 2 ^ unat l"
proof -
  have "(2::int) ^ unat l < 2 ^ 31"
    using assms by (intro power_strict_increasing) simp_all
  moreover have "shl1 l = word_of_int (2 ^ unat l)"
    by (simp add: shl1_def word_of_int_2p)
  ultimately have "signed_take_bit 31 ((2::int) ^ unat l) = 2 ^ unat l"
    and "shl1 l = word_of_int (2 ^ unat l)"
    by (simp_all add: signed_take_bit_31_id)
  then show ?thesis
    by (simp only: sint_sbintrunc') simp
qed

lemma uint_drop_bit_32:
  fixes w :: int32
  shows "drop_bit n w = word_of_int (uint w div 2 ^ n)"
proof -
  have "uint (drop_bit n w) = uint w div 2 ^ n"
    using uint_lt2p [of w]
    by (simp only: unsigned_drop_bit_eq) (simp add: drop_bit_eq_div take_bit_int_eq_self)
  then show ?thesis
    by (metis word_of_int_uint)
qed

lemma sdiv_nonneg:
  fixes k l :: int
  shows "0 \<le> k \<Longrightarrow> 0 < l \<Longrightarrow> k sdiv l = k div l"
  by (cases "k = 0") (simp_all add: signed_divide_int_def sgn_if)

lemma int_div_shl1:
  fixes w l :: int32
  assumes "0 \<le> sint w" and "unat l < 32"
  shows "int_div w (shl1 l) = drop_bit (unat l) w"
proof (cases "unat l < 31")
  case True
  have "sint w sdiv sint (shl1 l) = uint w div 2 ^ unat l"
    using assms(1) by (simp add: sint_shl1 [OF True] sint_nonneg_uint(1) sdiv_nonneg)
  then show ?thesis
    by (simp only: int_div_def uint_drop_bit_32)
next
  case False
  with assms(2) have l: "unat l = 31" by simp
  have d: "sint (shl1 l) = - (2 ^ 31)"
    by (simp add: shl1_def l)
  have small: "uint w < 2 ^ 31" and eq: "sint w = uint w"
    using sint_nonneg_uint [OF assms(1)] by simp_all
  have "sint w sdiv sint (shl1 l) = 0"
    using small eq assms(1) by (simp add: d signed_divide_int_def)
  moreover have "uint w div 2 ^ 31 = 0"
    using small by simp
  ultimately show ?thesis
    by (simp only: int_div_def uint_drop_bit_32 l)
qed

subsection \<open>What the two passes do\<close>

lemma find_unused_None:
  "find_unused m ks = Inr None \<Longrightarrow> k \<in> set ks \<Longrightarrow> \<exists>v. m k = Some v \<and> useCount v \<noteq> 1"
  by (induction ks) (auto split: option.splits if_splits)

lemma find_unused_Inl:
  "find_unused m ks = Inl e \<Longrightarrow> \<exists>k\<in>set ks. m k = None"
  by (induction ks) (auto split: option.splits if_splits)

lemma find_single_None:
  "find_single m c ks = Inr None \<Longrightarrow> k \<in> set ks \<Longrightarrow>
     \<exists>v. m k = Some v \<and> \<not> (useCount v = 1 \<and> sint c \<le> sint (memorySize v))"
  by (induction ks) (auto split: option.splits if_splits)

lemma find_single_Inl:
  "find_single m c ks = Inl e \<Longrightarrow> \<exists>k\<in>set ks. m k = None"
  by (induction ks) (auto split: option.splits if_splits)

lemma find_single_first:
  assumes "\<forall>k\<in>set older. \<exists>v. m k = Some v \<and> \<not> (useCount v = 1 \<and> sint c \<le> sint (memorySize v))"
    and "m victim = Some val" and "useCount val = 1" and "sint c \<le> sint (memorySize val)"
  shows "find_single m c (older @ victim # younger) = Inr (Some (victim, val))"
  using assms by (induction older) auto

lemma evict_memUsage:
  "capacity (memUsage (evict key val s)) = capacity (memUsage s)
   \<and> maxSize (memUsage (evict key val s)) = maxSize (memUsage s)"
  by (simp add: evict_def)

lemma evict_loop_result:
  assumes "evict_loop c s = (e, s')" and "consistent s" and "0 < sint c"
  shows "e = None
    \<and> keys s' = filter (\<lambda>k. useCount (the (imagePtrs s k)) \<noteq> 1) (keys s)
    \<and> imagePtrs s' = imagePtrs s |` {k. useCount (the (imagePtrs s k)) \<noteq> 1}
    \<and> capacity (memUsage s') = capacity (memUsage s)
    \<and> maxSize (memUsage s') = maxSize (memUsage s)"
  using assms
proof (induction c s rule: evict_loop.induct)
  case (1 c s)
  from "1.prems"(2) have d: "distinct (keys s)" and dm: "set (keys s) = dom (imagePtrs s)"
    by (simp_all add: consistent_def)
  show ?case
  proof (cases "find_unused (imagePtrs s) (keys s)")
    case (Inl err)
    with find_unused_Inl [OF Inl] dm show ?thesis by auto
  next
    case (Inr found)
    show ?thesis
    proof (cases found)
      case None
      have all: "\<And>k. k \<in> set (keys s) \<Longrightarrow> useCount (the (imagePtrs s k)) \<noteq> 1"
        using find_unused_None [of "imagePtrs s" "keys s"] Inr None by fastforce
      have s': "e = None" "s' = s"
        using "1.prems"(1,3) Inr None by (simp_all add: evict_loop.simps [of c s])
      have "imagePtrs s |` {k. useCount (the (imagePtrs s k)) \<noteq> 1} = imagePtrs s"
      proof
        fix k show "(imagePtrs s |` {k. useCount (the (imagePtrs s k)) \<noteq> 1}) k = imagePtrs s k"
          using all [of k] dm by (cases "imagePtrs s k") (auto simp: restrict_map_def)
      qed
      moreover have "filter (\<lambda>k. useCount (the (imagePtrs s k)) \<noteq> 1) (keys s) = keys s"
        using all by (simp add: filter_id_conv)
      ultimately show ?thesis using s' by simp
    next
      case (Some key)
      with Inr obtain val where v: "imagePtrs s key = Some val" "useCount val = 1" "key \<in> set (keys s)"
        by (auto dest: find_unused_Some)
      let ?s1 = "evict key val s"
      have run: "evict_loop c ?s1 = (e, s')"
        using "1.prems"(1,3) Inr Some v by (simp add: evict_loop.simps [of c s])
      have c1: "consistent ?s1"
        using "1.prems"(2) v(1) by (rule consistent_evict)
      note IH = "1.IH" [OF "1.prems"(3) Inr Some v(1) run c1 "1.prems"(3)]
      have k1: "keys ?s1 = remove1 key (keys s)" and m1: "imagePtrs ?s1 = (imagePtrs s)(key := None)"
        by (simp_all add: evict_def)
      have notin: "key \<notin> set (remove1 key (keys s))"
        using d by simp
      have "filter (\<lambda>k. useCount (the (imagePtrs ?s1 k)) \<noteq> 1) (keys ?s1)
          = filter (\<lambda>k. useCount (the (imagePtrs s k)) \<noteq> 1) (remove1 key (keys s))"
        unfolding k1 m1 using notin by (intro filter_cong) auto
      also have "\<dots> = remove1 key (filter (\<lambda>k. useCount (the (imagePtrs s k)) \<noteq> 1) (keys s))"
        by (simp add: filter_remove1)
      also have "\<dots> = filter (\<lambda>k. useCount (the (imagePtrs s k)) \<noteq> 1) (keys s)"
        using v by (intro remove1_idem) simp
      finally have keys: "filter (\<lambda>k. useCount (the (imagePtrs ?s1 k)) \<noteq> 1) (keys ?s1)
          = filter (\<lambda>k. useCount (the (imagePtrs s k)) \<noteq> 1) (keys s)" .
      have map: "imagePtrs ?s1 |` {k. useCount (the (imagePtrs ?s1 k)) \<noteq> 1}
          = imagePtrs s |` {k. useCount (the (imagePtrs s k)) \<noteq> 1}"
      proof
        fix k
        show "(imagePtrs ?s1 |` {k. useCount (the (imagePtrs ?s1 k)) \<noteq> 1}) k
            = (imagePtrs s |` {k. useCount (the (imagePtrs s k)) \<noteq> 1}) k"
          using v by (cases "k = key") (simp_all add: m1 restrict_map_def)
      qed
      show ?thesis
        using IH keys map evict_memUsage [of key val s] by simp
    qed
  qed
qed

lemma evict_loop_idle:
  "\<not> 0 < sint c \<Longrightarrow> evict_loop c s = (None, s)"
  by (simp add: evict_loop.simps)

lemma find_single_all_referenced:
  "\<forall>k\<in>set ks. \<exists>v. m k = Some v \<and> useCount v \<noteq> 1 \<Longrightarrow> find_single m c ks = Inr None"
  by (induction ks) auto

lemma find_unused_all_referenced:
  "\<forall>k\<in>set ks. \<exists>v. m k = Some v \<and> useCount v \<noteq> 1 \<Longrightarrow> find_unused m ks = Inr None"
  by (induction ks) auto

lemma find_single_total:
  "set ks \<subseteq> dom m \<Longrightarrow> \<exists>r. find_single m c ks = Inr r"
  by (induction ks) (auto split: option.splits)

lemma evict_loop_None:
  assumes "consistent s"
  shows "\<exists>s'. evict_loop c s = (None, s')"
proof (cases "0 < sint c")
  case True
  obtain e s' where l: "evict_loop c s = (e, s')" by (cases "evict_loop c s")
  from evict_loop_result [OF l assms True] l show ?thesis by simp
next
  case False
  then show ?thesis by (simp add: evict_loop_idle)
qed

lemma evict_loop_map_le:
  assumes "evict_loop c s = (e, s')" and "consistent s"
  shows "imagePtrs s' \<subseteq>\<^sub>m imagePtrs s \<and> maxSize (memUsage s') = maxSize (memUsage s)
    \<and> set (keys s') \<subseteq> set (keys s)"
proof (cases "0 < sint c")
  case True
  from evict_loop_result [OF assms True] show ?thesis
    by (auto simp: map_le_def restrict_map_def)
next
  case False
  with assms(1) show ?thesis by (simp add: evict_loop_idle)
qed

lemma acquire_wrap: "acquire tp (wrap tp p) = wrap tp (p\<lparr>use_count := use_count p + 1\<rparr>)"
  by (cases tp) (simp_all add: acquire_def wrap_def CacheValue_empty_def)

lemma load_and_return_admit:
  assumes "imagePtrs s key = None" and "readImage ld (filename key) = Some raw"
  shows "\<exists>s'. load_and_return ld tp key s es =
      (Inr (Some (make_shared ld)), s', es @ [CallReadImage (filename key)])
    \<and> keys s' = keys s @ [key]
    \<and> imagePtrs s' = (imagePtrs s)(key \<mapsto> wrap tp
          \<lparr>ptr = make_shared ld,
           pointee = downscaleImageInplace ld raw (shl1 (halfSampleLevel key)),
           use_count = 2\<rparr>)
    \<and> nbImages (memUsage s') = nbImages (memUsage s) + 1
    \<and> contentSize (memUsage s') = contentSize (memUsage s)
          + MemorySize tp (downscaleImageInplace ld raw (shl1 (halfSampleLevel key)))
    \<and> capacity (memUsage s') = capacity (memUsage s)
    \<and> maxSize (memUsage s') = maxSize (memUsage s)"
proof -
  define p where "p = \<lparr>ptr = make_shared ld,
      pointee = downscaleImageInplace ld raw (shl1 (halfSampleLevel key)), use_count = 1\<rparr>"
  obtain e s1 es1 where l: "load ld tp key s = (e, s1, es1)" by (cases "load ld tp key s")
  from l assms have e: "e = None" and es1: "es1 = [CallReadImage (filename key)]"
    and k1: "keys s1 = keys s @ [key]"
    and m1: "imagePtrs s1 = (imagePtrs s)(key \<mapsto> wrap tp p)"
    and n1: "nbImages (memUsage s1) = nbImages (memUsage s) + 1"
    and c1: "contentSize (memUsage s1) = contentSize (memUsage s) + memorySize (wrap tp p)"
    and cap1: "capacity (memUsage s1) = capacity (memUsage s)"
    and max1: "maxSize (memUsage s1) = maxSize (memUsage s)"
    by (auto simp: load_def Let_def map_insert_def p_def)
  define s2 where "s2 = s1\<lparr>imagePtrs := (imagePtrs s1)(key \<mapsto> acquire tp (wrap tp p))\<rparr>"
  have f: "fetch tp key s1 = (Inr (Some (make_shared ld)), s2)"
    by (simp add: fetch_def m1 get_wrap s2_def p_def)
  have lr: "load_and_return ld tp key s es =
      (Inr (Some (make_shared ld)), s2, es @ [CallReadImage (filename key)])"
    by (simp add: load_and_return_def l e es1 f)
  have w: "acquire tp (wrap tp p) = wrap tp \<lparr>ptr = make_shared ld,
      pointee = downscaleImageInplace ld raw (shl1 (halfSampleLevel key)), use_count = 2\<rparr>"
    by (simp add: acquire_wrap p_def)
  have m2: "imagePtrs s2 = (imagePtrs s)(key \<mapsto> wrap tp \<lparr>ptr = make_shared ld,
      pointee = downscaleImageInplace ld raw (shl1 (halfSampleLevel key)), use_count = 2\<rparr>)"
    by (simp add: s2_def m1 w)
  have c2: "contentSize (memUsage s2) = contentSize (memUsage s)
      + MemorySize tp (downscaleImageInplace ld raw (shl1 (halfSampleLevel key)))"
    by (simp add: s2_def c1 memorySize_wrap p_def)
  have rest: "keys s2 = keys s @ [key]" "nbImages (memUsage s2) = nbImages (memUsage s) + 1"
    "capacity (memUsage s2) = capacity (memUsage s)" "maxSize (memUsage s2) = maxSize (memUsage s)"
    by (simp_all add: s2_def k1 n1 cap1 max1)
  from lr m2 c2 rest show ?thesis by blast
qed

lemma unat_level:
  fixes level :: int32
  assumes "0 \<le> sint level" and "sint level < 32"
  shows "unat level < 32"
proof -
  from sint_nonneg_uint(1) [OF assms(1)] assms(2) have "uint level < 32" by simp
  then show ?thesis using unat_eq_nat_uint [of level] by linarith
qed

lemma get_miss_unfold:
  assumes "reqKey_of tp fname level \<notin> set (keys s)"
    and "readImageSize ld fname = Some (width, height)"
    and "0 \<le> sint level" and "sint level < 32"
  shows "get ld tp fname level s =
    (if sint (memSize_of tp width height (shl1 level) + contentSize (memUsage s))
          \<le> sint (capacity (memUsage s))
     then load_and_return ld tp (reqKey_of tp fname level) s [CallReadImageSize fname]
     else evict_and_admit ld tp (reqKey_of tp fname level)
            (memSize_of tp width height (shl1 level)) s [CallReadImageSize fname])"
  using assms by (simp add: get_def get_miss_def Let_def reqKey_of_def)

lemma load_and_return_other:
  assumes "load_and_return ld tp key s es = (r, s', evs)" and "k \<noteq> key" and "imagePtrs s k = None"
  shows "imagePtrs s' k = None"
proof -
  obtain e s1 es1 where l: "load ld tp key s = (e, s1, es1)" by (cases "load ld tp key s")
  then have m1: "imagePtrs s1 k = None"
    using assms(2,3) by (auto simp: load_def Let_def map_insert_def split: option.splits)
  show ?thesis
  proof (cases e)
    case (Some err)
    with assms(1) l m1 show ?thesis by (simp add: load_and_return_def)
  next
    case None
    obtain r2 s2 where f: "fetch tp key s1 = (r2, s2)" by (cases "fetch tp key s1")
    with assms(1) l None have "s' = s2" by (simp add: load_and_return_def)
    with fetch_imagePtrs [OF f, of k] m1 assms(2) show ?thesis by simp
  qed
qed

lemma beyond_capacity_evicts:
  assumes "consistent s" and "key \<notin> set (keys s)"
    and "evict_and_admit ld tp key m s es = (Inr h, s', evs)"
    and "0 < sint (m + contentSize (memUsage s) - capacity (memUsage s))"
    and "imagePtrs s k = Some v" and "useCount v = 1"
  shows "\<exists>k v. imagePtrs s k = Some v \<and> useCount v = 1 \<and> imagePtrs s' k = None"
proof -
  let ?c = "m + contentSize (memUsage s) - capacity (memUsage s)"
  from assms(1) have dm: "set (keys s) = dom (imagePtrs s)" by (simp add: consistent_def)
  obtain found where fs: "find_single (imagePtrs s) ?c (keys s) = Inr found"
    using find_single_total [of "keys s" "imagePtrs s" ?c] dm by auto
  show ?thesis
  proof (cases found)
    case (Some kv)
    obtain victim val where kv: "kv = (victim, val)" by (cases kv)
    from fs Some kv have vic: "victim \<in> set (keys s)" "imagePtrs s victim = Some val" "useCount val = 1"
      by (auto dest: find_single_Some)
    have "load_and_return ld tp key (evict victim val s) es = (Inr h, s', evs)"
      using assms(3) fs Some kv by (simp add: evict_and_admit_def Let_def)
    moreover have "victim \<noteq> key" using vic(1) assms(2) by auto
    moreover have "imagePtrs (evict victim val s) victim = None" by (simp add: evict_def)
    ultimately have "imagePtrs s' victim = None" by (rule load_and_return_other)
    with vic show ?thesis by blast
  next
    case None
    obtain s1 where loop: "evict_loop ?c s = (None, s1)"
      using evict_loop_None [OF assms(1)] by blast
    from evict_loop_result [OF loop assms(1,4)] assms(5,6)
    have gone: "imagePtrs s1 k = None" by (simp add: restrict_map_def)
    have "load_and_return ld tp key s1 es = (Inr h, s', evs)"
      using assms(3) fs None loop by (simp add: evict_and_admit_def Let_def split: if_splits)
    moreover have "k \<noteq> key" using assms(2,5) dm by auto
    ultimately have "imagePtrs s' k = None" using gone by (rule load_and_return_other)
    with assms(5,6) show ?thesis by blast
  qed
qed

text \<open>
  C7, as amended. On a miss, for probed dimensions that are not negative and a level
  from 0 to 31 (where \<open>1 << level\<close> is defined), the required size is
  \<open>(width >> level) * (height >> level) * sizeof(TPix)\<close> as an \<open>int\<close>. If the required
  size plus the content size is at most the capacity, the call is the direct admission:
  when the loader reads the image, the call returns the new buffer, appends the key to
  the recency list, adds the one entry to the map, increments the count and adds the
  size of the new buffer, and nothing else changes. If not, the call is the eviction
  protocol (missing capacity, first pass, second pass, test against the maximal size),
  and the capacity test does not decide alone whether something is evicted: with a
  positive missing capacity and some resident entry of use count 1, a call that returns
  a handle has evicted an entry; with no resident entry of use count 1 and the required
  size plus the content size at most the maximal size, the image is admitted exactly as
  in the direct admission, with no eviction and no change to any other entry.
\<close>

theorem required_size_and_direct_admission:
  assumes "reachable s"
    and "reqKey_of tp fname level \<notin> set (keys s)"
    and "readImageSize ld fname = Some (width, height)"
    and "0 \<le> sint width" and "0 \<le> sint height"
    and "0 \<le> sint level" and "sint level < 32"
  shows "memSize_of tp width height (shl1 level)
      = drop_bit (unat level) width * drop_bit (unat level) height * ucast (sizeof tp)
    \<and> (sint (drop_bit (unat level) width * drop_bit (unat level) height * ucast (sizeof tp)
            + contentSize (memUsage s)) \<le> sint (capacity (memUsage s)) \<longrightarrow>
         get ld tp fname level s
           = load_and_return ld tp (reqKey_of tp fname level) s [CallReadImageSize fname]
         \<and> (\<forall>raw. readImage ld fname = Some raw \<longrightarrow>
              (\<exists>s'. get ld tp fname level s =
                  (Inr (Some (make_shared ld)), s', [CallReadImageSize fname, CallReadImage fname])
                \<and> keys s' = keys s @ [reqKey_of tp fname level]
                \<and> imagePtrs s' = (imagePtrs s)(reqKey_of tp fname level \<mapsto> wrap tp
                      \<lparr>ptr = make_shared ld,
                       pointee = downscaleImageInplace ld raw (shl1 level),
                       use_count = 2\<rparr>)
                \<and> nbImages (memUsage s') = nbImages (memUsage s) + 1
                \<and> contentSize (memUsage s') = contentSize (memUsage s)
                      + MemorySize tp (downscaleImageInplace ld raw (shl1 level))
                \<and> capacity (memUsage s') = capacity (memUsage s)
                \<and> maxSize (memUsage s') = maxSize (memUsage s))))
    \<and> (\<not> sint (drop_bit (unat level) width * drop_bit (unat level) height * ucast (sizeof tp)
            + contentSize (memUsage s)) \<le> sint (capacity (memUsage s)) \<longrightarrow>
         get ld tp fname level s
           = evict_and_admit ld tp (reqKey_of tp fname level)
               (drop_bit (unat level) width * drop_bit (unat level) height * ucast (sizeof tp))
               s [CallReadImageSize fname]
         \<and> (0 < sint (drop_bit (unat level) width * drop_bit (unat level) height
                     * ucast (sizeof tp) + contentSize (memUsage s) - capacity (memUsage s)) \<longrightarrow>
            (\<exists>k v. imagePtrs s k = Some v \<and> useCount v = 1) \<longrightarrow>
            (\<forall>h s' evs. get ld tp fname level s = (Inr h, s', evs) \<longrightarrow>
               (\<exists>k v. imagePtrs s k = Some v \<and> useCount v = 1 \<and> imagePtrs s' k = None)))
         \<and> ((\<forall>k v. imagePtrs s k = Some v \<longrightarrow> useCount v \<noteq> 1) \<longrightarrow>
            sint (drop_bit (unat level) width * drop_bit (unat level) height * ucast (sizeof tp)
                  + contentSize (memUsage s)) \<le> sint (maxSize (memUsage s)) \<longrightarrow>
            (\<forall>raw. readImage ld fname = Some raw \<longrightarrow>
              (\<exists>s'. get ld tp fname level s =
                  (Inr (Some (make_shared ld)), s', [CallReadImageSize fname, CallReadImage fname])
                \<and> keys s' = keys s @ [reqKey_of tp fname level]
                \<and> imagePtrs s' = (imagePtrs s)(reqKey_of tp fname level \<mapsto> wrap tp
                      \<lparr>ptr = make_shared ld,
                       pointee = downscaleImageInplace ld raw (shl1 level),
                       use_count = 2\<rparr>)
                \<and> nbImages (memUsage s') = nbImages (memUsage s) + 1
                \<and> contentSize (memUsage s') = contentSize (memUsage s)
                      + MemorySize tp (downscaleImageInplace ld raw (shl1 level))
                \<and> capacity (memUsage s') = capacity (memUsage s)
                \<and> maxSize (memUsage s') = maxSize (memUsage s)))))"
proof -
  let ?k = "reqKey_of tp fname level"
  have l: "unat level < 32" using assms(6,7) by (rule unat_level)
  have size: "memSize_of tp width height (shl1 level)
      = drop_bit (unat level) width * drop_bit (unat level) height * ucast (sizeof tp)"
    by (simp add: memSize_of_word int_div_shl1 [OF assms(4) l] int_div_shl1 [OF assms(5) l])
  note unfold = get_miss_unfold [OF assms(2,3,6,7), unfolded size]
  from assms(1) have "consistent s" by (rule reachable_consistent)
  with assms(2) have none: "imagePtrs s ?k = None"
    by (auto simp: consistent_def)
  have fk: "filename ?k = fname" and lk: "halfSampleLevel ?k = level"
    by (simp_all add: reqKey_of_def)
  have admit: "readImage ld fname = Some raw \<Longrightarrow>
      \<exists>s'. load_and_return ld tp ?k s [CallReadImageSize fname] =
          (Inr (Some (make_shared ld)), s', [CallReadImageSize fname, CallReadImage fname])
        \<and> keys s' = keys s @ [?k]
        \<and> imagePtrs s' = (imagePtrs s)(?k \<mapsto> wrap tp
              \<lparr>ptr = make_shared ld,
               pointee = downscaleImageInplace ld raw (shl1 level),
               use_count = 2\<rparr>)
        \<and> nbImages (memUsage s') = nbImages (memUsage s) + 1
        \<and> contentSize (memUsage s') = contentSize (memUsage s)
              + MemorySize tp (downscaleImageInplace ld raw (shl1 level))
        \<and> capacity (memUsage s') = capacity (memUsage s)
        \<and> maxSize (memUsage s') = maxSize (memUsage s)" for raw
    using load_and_return_admit [of s ?k ld raw tp "[CallReadImageSize fname]"] none
    by (simp add: fk lk)
  let ?fits = "sint (drop_bit (unat level) width * drop_bit (unat level) height * ucast (sizeof tp)
      + contentSize (memUsage s)) \<le> sint (capacity (memUsage s))"
  have direct: "get ld tp fname level s = load_and_return ld tp ?k s [CallReadImageSize fname]"
    if ?fits using that unfold by simp
  have other: "get ld tp fname level s = evict_and_admit ld tp ?k
      (drop_bit (unat level) width * drop_bit (unat level) height * ucast (sizeof tp))
      s [CallReadImageSize fname]"
    if "\<not> ?fits" using that unfold by simp
  show ?thesis
  proof (intro conjI impI allI)
    show "memSize_of tp width height (shl1 level)
      = drop_bit (unat level) width * drop_bit (unat level) height * ucast (sizeof tp)"
      by (rule size)
  next
    assume ?fits
    then show "get ld tp fname level s = load_and_return ld tp ?k s [CallReadImageSize fname]"
      by (rule direct)
  next
    fix raw
    assume ?fits and "readImage ld fname = Some raw"
    then show "\<exists>s'. get ld tp fname level s =
          (Inr (Some (make_shared ld)), s', [CallReadImageSize fname, CallReadImage fname])
        \<and> keys s' = keys s @ [?k]
        \<and> imagePtrs s' = (imagePtrs s)(?k \<mapsto> wrap tp
              \<lparr>ptr = make_shared ld,
               pointee = downscaleImageInplace ld raw (shl1 level),
               use_count = 2\<rparr>)
        \<and> nbImages (memUsage s') = nbImages (memUsage s) + 1
        \<and> contentSize (memUsage s') = contentSize (memUsage s)
              + MemorySize tp (downscaleImageInplace ld raw (shl1 level))
        \<and> capacity (memUsage s') = capacity (memUsage s)
        \<and> maxSize (memUsage s') = maxSize (memUsage s)"
      using admit [of raw] direct by simp
  next
    assume "\<not> ?fits"
    then show "get ld tp fname level s = evict_and_admit ld tp ?k
      (drop_bit (unat level) width * drop_bit (unat level) height * ucast (sizeof tp))
      s [CallReadImageSize fname]"
      by (rule other)
  next
    fix h s' evs
    assume "\<not> ?fits"
      and pos: "0 < sint (drop_bit (unat level) width * drop_bit (unat level) height
          * ucast (sizeof tp) + contentSize (memUsage s) - capacity (memUsage s))"
      and ex: "\<exists>k v. imagePtrs s k = Some v \<and> useCount v = 1"
      and call: "get ld tp fname level s = (Inr h, s', evs)"
    from ex obtain k v where kv: "imagePtrs s k = Some v" "useCount v = 1" by blast
    from call other [OF \<open>\<not> ?fits\<close>]
    have "evict_and_admit ld tp ?k
        (drop_bit (unat level) width * drop_bit (unat level) height * ucast (sizeof tp))
        s [CallReadImageSize fname] = (Inr h, s', evs)" by simp
    from beyond_capacity_evicts [OF \<open>consistent s\<close> assms(2) this pos kv]
    show "\<exists>k v. imagePtrs s k = Some v \<and> useCount v = 1 \<and> imagePtrs s' k = None" .
  next
    fix raw
    let ?m = "drop_bit (unat level) width * drop_bit (unat level) height * ucast (sizeof tp)"
    let ?c = "?m + contentSize (memUsage s) - capacity (memUsage s)"
    assume nofit: "\<not> ?fits"
      and held: "\<forall>k v. imagePtrs s k = Some v \<longrightarrow> useCount v \<noteq> 1"
      and room: "sint (?m + contentSize (memUsage s)) \<le> sint (maxSize (memUsage s))"
      and read: "readImage ld fname = Some raw"
    have "set (keys s) = dom (imagePtrs s)"
      using \<open>consistent s\<close> by (simp add: consistent_def)
    with held have all: "\<forall>k\<in>set (keys s). \<exists>v. imagePtrs s k = Some v \<and> useCount v \<noteq> 1"
      by fastforce
    have first: "find_single (imagePtrs s) ?c (keys s) = Inr None"
      using all by (rule find_single_all_referenced)
    have second: "evict_loop ?c s = (None, s)"
      using find_unused_all_referenced [OF all]
      by (simp add: evict_loop.simps [of ?c s])
    have "evict_and_admit ld tp ?k ?m s [CallReadImageSize fname]
        = load_and_return ld tp ?k s [CallReadImageSize fname]"
      using room by (simp add: evict_and_admit_def Let_def first second)
    with other [OF nofit]
    have "get ld tp fname level s = load_and_return ld tp ?k s [CallReadImageSize fname]"
      by simp
    then show "\<exists>s'. get ld tp fname level s =
          (Inr (Some (make_shared ld)), s', [CallReadImageSize fname, CallReadImage fname])
        \<and> keys s' = keys s @ [?k]
        \<and> imagePtrs s' = (imagePtrs s)(?k \<mapsto> wrap tp
              \<lparr>ptr = make_shared ld,
               pointee = downscaleImageInplace ld raw (shl1 level),
               use_count = 2\<rparr>)
        \<and> nbImages (memUsage s') = nbImages (memUsage s) + 1
        \<and> contentSize (memUsage s') = contentSize (memUsage s)
              + MemorySize tp (downscaleImageInplace ld raw (shl1 level))
        \<and> capacity (memUsage s') = capacity (memUsage s)
        \<and> maxSize (memUsage s') = maxSize (memUsage s)"
      using admit [OF read] by simp
  qed
qed

theorem required_size_and_direct_admission_witness:
  "memSize_of TRGB 1001 601 (shl1 1) = 500 * 300 * 3
   \<and> get (example_loader 1001 601 2) TRGB ''b'' 1
     (cache_of 1000000 2000000 [(reqKey_of TUChar ''a'' 0, entry TUChar 1 1000 300 1)])
     = (Inr (Some 2),
        cache_of 1000000 2000000
          [(reqKey_of TUChar ''a'' 0, entry TUChar 1 1000 300 1),
           (reqKey_of TRGB ''b'' 1, entry TRGB 2 500 300 2)],
        [CallReadImageSize ''b'', CallReadImage ''b''])
   \<and> get (example_loader 1000 500 2) TRGB ''b'' 0
     (cache_of 1000000 2000000 [(reqKey_of TUChar ''a'' 0, entry TUChar 1 1000 300 1)])
     = evict_and_admit (example_loader 1000 500 2) TRGB (reqKey_of TRGB ''b'' 0) 1500000
         (cache_of 1000000 2000000 [(reqKey_of TUChar ''a'' 0, entry TUChar 1 1000 300 1)])
         [CallReadImageSize ''b'']
   \<and> get (example_loader 1000 500 2) TRGB ''b'' 0
     (cache_of 1000000 2000000 [(reqKey_of TUChar ''a'' 0, entry TUChar 1 1000 300 1)])
     = (Inr (Some 2),
        cache_of 1000000 2000000 [(reqKey_of TRGB ''b'' 0, entry TRGB 2 1000 500 2)],
        [CallReadImageSize ''b'', CallReadImage ''b''])
   \<and> fst (get (example_loader 1000 1000 2) TUChar ''b'' 0
     (cache_of 1000000 2000000 [(reqKey_of TUChar ''a'' 0, entry TUChar 1 1000 300 2)]))
     = Inr (Some 2)"
proof -
  let ?s = "cache_of 1000000 2000000 [(reqKey_of TUChar ''a'' 0, entry TUChar 1 1000 300 1)]"
  let ?t = "cache_of 1000000 2000000 [(reqKey_of TUChar ''a'' 0, entry TUChar 1 1000 300 2)]"
  have miss_t: "reqKey_of TUChar ''b'' 0 \<notin> set (keys ?t)"
    by (simp add: cache_of_def reqKey_of_def)
  have probe_t: "readImageSize (example_loader 1000 1000 2) ''b'' = Some (1000, 1000)"
    and read_t: "readImage (example_loader 1000 1000 2) ''b'' = Some \<lparr>Width = 1000, Height = 1000\<rparr>"
    by (simp_all add: example_loader_def)
  have dims_t: "0 \<le> sint (1000 :: int32)" "0 \<le> sint (1000 :: int32)"
    and lvl_t: "0 \<le> sint (0 :: int32)" "sint (0 :: int32) < 32"
    by simp_all
  note three = required_size_and_direct_admission [OF reachable_a2 miss_t probe_t dims_t lvl_t]
  have shift_t: "drop_bit (unat (0 :: int32)) (1000 :: int32) = 1000"
    by simp
  have nofit_t: "\<not> sint (drop_bit (unat (0 :: int32)) 1000 * drop_bit (unat (0 :: int32)) 1000
        * ucast (sizeof TUChar) + contentSize (memUsage ?t)) \<le> sint (capacity (memUsage ?t))"
    by (simp add: shift_t eval_defs)
  have held_t: "\<forall>k v. imagePtrs ?t k = Some v \<longrightarrow> useCount v \<noteq> 1"
    by (auto simp: eval_defs split: if_splits)
  have room_t: "sint (drop_bit (unat (0 :: int32)) 1000 * drop_bit (unat (0 :: int32)) 1000
        * ucast (sizeof TUChar) + contentSize (memUsage ?t)) \<le> sint (maxSize (memUsage ?t))"
    by (simp add: shift_t eval_defs)
  from three nofit_t held_t room_t read_t obtain t' where
    "get (example_loader 1000 1000 2) TUChar ''b'' 0 ?t =
        (Inr (Some (make_shared (example_loader 1000 1000 2))), t',
         [CallReadImageSize ''b'', CallReadImage ''b''])"
    by blast
  then have held_admitted: "fst (get (example_loader 1000 1000 2) TUChar ''b'' 0 ?t) = Inr (Some 2)"
    by (simp add: example_loader_def)
  have miss1: "reqKey_of TRGB ''b'' 1 \<notin> set (keys ?s)"
    and miss0: "reqKey_of TRGB ''b'' 0 \<notin> set (keys ?s)"
    by (simp_all add: cache_of_def reqKey_of_def)
  have probe1: "readImageSize (example_loader 1001 601 2) ''b'' = Some (1001, 601)"
    and probe0: "readImageSize (example_loader 1000 500 2) ''b'' = Some (1000, 500)"
    by (simp_all add: example_loader_def)
  have dims1: "0 \<le> sint (1001 :: int32)" "0 \<le> sint (601 :: int32)"
    and dims0: "0 \<le> sint (1000 :: int32)" "0 \<le> sint (500 :: int32)"
    and lvl1: "0 \<le> sint (1 :: int32)" "sint (1 :: int32) < 32"
    and lvl0: "0 \<le> sint (0 :: int32)" "sint (0 :: int32) < 32"
    by simp_all
  note one = required_size_and_direct_admission [OF reachable_a miss1 probe1 dims1 lvl1]
  note two = required_size_and_direct_admission [OF reachable_a miss0 probe0 dims0 lvl0]
  have shifts: "drop_bit (unat (1 :: int32)) (1001 :: int32) = 500"
    "drop_bit (unat (1 :: int32)) (601 :: int32) = 300"
    "drop_bit (unat (0 :: int32)) (1000 :: int32) = 1000"
    "drop_bit (unat (0 :: int32)) (500 :: int32) = 500"
    by (simp_all add: drop_bit_eq_div)
  have size: "memSize_of TRGB 1001 601 (shl1 1) = 500 * 300 * 3"
    using one by (simp add: shifts)
  have fits: "sint (drop_bit (unat (1 :: int32)) 1001 * drop_bit (unat (1 :: int32)) 601
        * ucast (sizeof TRGB) + contentSize (memUsage ?s)) \<le> sint (capacity (memUsage ?s))"
    by (simp add: shifts eval_defs)
  have read: "readImage (example_loader 1001 601 2) ''b'' = Some \<lparr>Width = 1001, Height = 601\<rparr>"
    by (simp add: example_loader_def)
  from one fits read obtain s' where
    call: "get (example_loader 1001 601 2) TRGB ''b'' 1 ?s =
        (Inr (Some (make_shared (example_loader 1001 601 2))), s',
         [CallReadImageSize ''b'', CallReadImage ''b''])"
    by blast
  have result: "get (example_loader 1001 601 2) TRGB ''b'' 1 ?s
     = (Inr (Some 2),
        cache_of 1000000 2000000
          [(reqKey_of TUChar ''a'' 0, entry TUChar 1 1000 300 1),
           (reqKey_of TRGB ''b'' 1, entry TRGB 2 500 300 2)],
        [CallReadImageSize ''b'', CallReadImage ''b''])"
    by (simp add: eval_defs fun_eq_iff)
  have nofit: "\<not> sint (drop_bit (unat (0 :: int32)) 1000 * drop_bit (unat (0 :: int32)) 500
        * ucast (sizeof TRGB) + contentSize (memUsage ?s)) \<le> sint (capacity (memUsage ?s))"
    by (simp add: shifts eval_defs)
  from two nofit have "get (example_loader 1000 500 2) TRGB ''b'' 0 ?s
     = evict_and_admit (example_loader 1000 500 2) TRGB (reqKey_of TRGB ''b'' 0)
         (drop_bit (unat (0 :: int32)) 1000 * drop_bit (unat (0 :: int32)) 500 * ucast (sizeof TRGB))
         ?s [CallReadImageSize ''b'']"
    by blast
  then have other: "get (example_loader 1000 500 2) TRGB ''b'' 0 ?s
     = evict_and_admit (example_loader 1000 500 2) TRGB (reqKey_of TRGB ''b'' 0) 1500000
         ?s [CallReadImageSize ''b'']"
    by (simp add: shifts)
  have evicting: "get (example_loader 1000 500 2) TRGB ''b'' 0 ?s
     = (Inr (Some 2),
        cache_of 1000000 2000000 [(reqKey_of TRGB ''b'' 0, entry TRGB 2 1000 500 2)],
        [CallReadImageSize ''b'', CallReadImage ''b''])"
    by (simp add: eval_defs evict_loop.simps fun_eq_iff)
  from size call result other evicting held_admitted show ?thesis by simp
qed

text \<open>
  The claim as it was stated, with "if and only if", fails at this input: in the cache
  of capacity 1 MB and maximal size 2 MB, ''a'' (300,000 bytes) is held by a caller and
  1,000,000 bytes are requested. The image does not fit in the capacity, no entry can
  be evicted, and the image is admitted below the maximal size: the key is appended,
  ''a'' keeps its value and the accountant only grows by the new buffer.
\<close>

theorem direct_admission_iff_counterexample:
  "reachable (cache_of 1000000 2000000 [(reqKey_of TUChar ''a'' 0, entry TUChar 1 1000 300 2)])
   \<and> reqKey_of TUChar ''b'' 0 \<notin> set (keys (cache_of 1000000 2000000
        [(reqKey_of TUChar ''a'' 0, entry TUChar 1 1000 300 2)]))
   \<and> \<not> sint (memSize_of TUChar 1000 1000 (shl1 0)
          + contentSize (memUsage (cache_of 1000000 2000000
              [(reqKey_of TUChar ''a'' 0, entry TUChar 1 1000 300 2)])))
        \<le> sint (capacity (memUsage (cache_of 1000000 2000000
              [(reqKey_of TUChar ''a'' 0, entry TUChar 1 1000 300 2)])))
   \<and> get (example_loader 1000 1000 2) TUChar ''b'' 0
       (cache_of 1000000 2000000 [(reqKey_of TUChar ''a'' 0, entry TUChar 1 1000 300 2)])
     = (Inr (Some 2),
        cache_of 1000000 2000000
          [(reqKey_of TUChar ''a'' 0, entry TUChar 1 1000 300 2),
           (reqKey_of TUChar ''b'' 0, entry TUChar 2 1000 1000 2)],
        [CallReadImageSize ''b'', CallReadImage ''b''])
   \<and> keys (cache_of 1000000 2000000
          [(reqKey_of TUChar ''a'' 0, entry TUChar 1 1000 300 2),
           (reqKey_of TUChar ''b'' 0, entry TUChar 2 1000 1000 2)])
     = keys (cache_of 1000000 2000000 [(reqKey_of TUChar ''a'' 0, entry TUChar 1 1000 300 2)])
       @ [reqKey_of TUChar ''b'' 0]
   \<and> imagePtrs (cache_of 1000000 2000000
          [(reqKey_of TUChar ''a'' 0, entry TUChar 1 1000 300 2),
           (reqKey_of TUChar ''b'' 0, entry TUChar 2 1000 1000 2)]) (reqKey_of TUChar ''a'' 0)
     = imagePtrs (cache_of 1000000 2000000
          [(reqKey_of TUChar ''a'' 0, entry TUChar 1 1000 300 2)]) (reqKey_of TUChar ''a'' 0)
   \<and> sint (contentSize (memUsage (cache_of 1000000 2000000
          [(reqKey_of TUChar ''a'' 0, entry TUChar 1 1000 300 2),
           (reqKey_of TUChar ''b'' 0, entry TUChar 2 1000 1000 2)]))) = 300000 + 1000000"
proof -
  let ?s = "cache_of 1000000 2000000 [(reqKey_of TUChar ''a'' 0, entry TUChar 1 1000 300 2)]"
  let ?s' = "cache_of 1000000 2000000
          [(reqKey_of TUChar ''a'' 0, entry TUChar 1 1000 300 2),
           (reqKey_of TUChar ''b'' 0, entry TUChar 2 1000 1000 2)]"
  have miss: "reqKey_of TUChar ''b'' 0 \<notin> set (keys ?s)"
    by (simp add: cache_of_def reqKey_of_def)
  have nofit: "\<not> sint (memSize_of TUChar 1000 1000 (shl1 0) + contentSize (memUsage ?s))
      \<le> sint (capacity (memUsage ?s))"
    by (simp add: eval_defs)
  have call: "get (example_loader 1000 1000 2) TUChar ''b'' 0 ?s
      = (Inr (Some 2), ?s', [CallReadImageSize ''b'', CallReadImage ''b''])"
    by (simp add: eval_defs evict_loop.simps fun_eq_iff)
  have order: "keys ?s' = keys ?s @ [reqKey_of TUChar ''b'' 0]"
    by (simp add: cache_of_def)
  have kept: "imagePtrs ?s' (reqKey_of TUChar ''a'' 0) = imagePtrs ?s (reqKey_of TUChar ''a'' 0)"
    by (simp add: cache_of_def reqKey_of_def)
  have total: "sint (contentSize (memUsage ?s')) = 300000 + 1000000"
    by (simp add: eval_defs)
  from reachable_a2 miss nofit call order kept total show ?thesis
    by (intro conjI)
qed

subsection \<open>More reachable caches\<close>

lemma reachable_a2b2:
  "reachable (cache_of 1000000 2000000
     [(reqKey_of TUChar ''a'' 0, entry TUChar 1 1000 300 2),
      (reqKey_of TUChar ''b'' 0, entry TUChar 2 1000 300 2)])"
proof -
  have "get (example_loader 1000 300 2) TUChar ''b'' 0
      (cache_of 1000000 2000000 [(reqKey_of TUChar ''a'' 0, entry TUChar 1 1000 300 2)]) =
      (Inr (Some 2),
       cache_of 1000000 2000000
         [(reqKey_of TUChar ''a'' 0, entry TUChar 1 1000 300 2),
          (reqKey_of TUChar ''b'' 0, entry TUChar 2 1000 300 2)],
       [CallReadImageSize ''b'', CallReadImage ''b''])"
    by (simp add: eval_defs fun_eq_iff)
  then show ?thesis
    using reachable.called [OF reachable_a2] by blast
qed

lemma reachable_a2b:
  "reachable (cache_of 1000000 2000000
     [(reqKey_of TUChar ''a'' 0, entry TUChar 1 1000 300 2),
      (reqKey_of TUChar ''b'' 0, entry TUChar 2 1000 300 1)])"
proof -
  have "handle_dropped (reqKey_of TUChar ''b'' 0)
      (cache_of 1000000 2000000
         [(reqKey_of TUChar ''a'' 0, entry TUChar 1 1000 300 2),
          (reqKey_of TUChar ''b'' 0, entry TUChar 2 1000 300 2)]) =
      cache_of 1000000 2000000
         [(reqKey_of TUChar ''a'' 0, entry TUChar 1 1000 300 2),
          (reqKey_of TUChar ''b'' 0, entry TUChar 2 1000 300 1)]"
    by (simp add: eval_defs fun_eq_iff)
  then show ?thesis
    using reachable.dropped [OF reachable_a2b2] by metis
qed

lemma reachable_ab:
  "reachable (cache_of 1000000 2000000
     [(reqKey_of TUChar ''a'' 0, entry TUChar 1 1000 300 1),
      (reqKey_of TUChar ''b'' 0, entry TUChar 2 1000 300 1)])"
proof -
  have "handle_dropped (reqKey_of TUChar ''b'' 0)
      (cache_of 1000000 2000000
         [(reqKey_of TUChar ''a'' 0, entry TUChar 1 1000 300 1),
          (reqKey_of TUChar ''b'' 0, entry TUChar 2 1000 300 2)]) =
      cache_of 1000000 2000000
         [(reqKey_of TUChar ''a'' 0, entry TUChar 1 1000 300 1),
          (reqKey_of TUChar ''b'' 0, entry TUChar 2 1000 300 1)]"
    by (simp add: eval_defs fun_eq_iff)
  then show ?thesis
    using reachable.dropped [OF reachable_ab2] by metis
qed

lemma reachable_abc2:
  "reachable (cache_of 1000000 2000000
     [(reqKey_of TUChar ''a'' 0, entry TUChar 1 1000 300 1),
      (reqKey_of TUChar ''b'' 0, entry TUChar 2 1000 300 1),
      (reqKey_of TUChar ''c'' 0, entry TUChar 3 1000 300 2)])"
proof -
  have "get (example_loader 1000 300 3) TUChar ''c'' 0
      (cache_of 1000000 2000000
         [(reqKey_of TUChar ''a'' 0, entry TUChar 1 1000 300 1),
          (reqKey_of TUChar ''b'' 0, entry TUChar 2 1000 300 1)]) =
      (Inr (Some 3),
       cache_of 1000000 2000000
         [(reqKey_of TUChar ''a'' 0, entry TUChar 1 1000 300 1),
          (reqKey_of TUChar ''b'' 0, entry TUChar 2 1000 300 1),
          (reqKey_of TUChar ''c'' 0, entry TUChar 3 1000 300 2)],
       [CallReadImageSize ''c'', CallReadImage ''c''])"
    by (simp add: eval_defs fun_eq_iff)
  then show ?thesis
    using reachable.called [OF reachable_ab] by blast
qed

lemma reachable_abc:
  "reachable (cache_of 1000000 2000000
     [(reqKey_of TUChar ''a'' 0, entry TUChar 1 1000 300 1),
      (reqKey_of TUChar ''b'' 0, entry TUChar 2 1000 300 1),
      (reqKey_of TUChar ''c'' 0, entry TUChar 3 1000 300 1)])"
proof -
  have "handle_dropped (reqKey_of TUChar ''c'' 0)
      (cache_of 1000000 2000000
         [(reqKey_of TUChar ''a'' 0, entry TUChar 1 1000 300 1),
          (reqKey_of TUChar ''b'' 0, entry TUChar 2 1000 300 1),
          (reqKey_of TUChar ''c'' 0, entry TUChar 3 1000 300 2)]) =
      cache_of 1000000 2000000
         [(reqKey_of TUChar ''a'' 0, entry TUChar 1 1000 300 1),
          (reqKey_of TUChar ''b'' 0, entry TUChar 2 1000 300 1),
          (reqKey_of TUChar ''c'' 0, entry TUChar 3 1000 300 1)]"
    by (simp add: eval_defs fun_eq_iff)
  then show ?thesis
    using reachable.dropped [OF reachable_abc2] by metis
qed

subsection \<open>The first pass\<close>

lemma load_and_return_after_evict:
  assumes "consistent s" and "key \<notin> set (keys s)" and "imagePtrs s victim = Some val"
    and "readImage ld (filename key) = Some raw"
  shows "\<exists>s'. load_and_return ld tp key (evict victim val s) es =
      (Inr (Some (make_shared ld)), s', es @ [CallReadImage (filename key)])
    \<and> keys s' = remove1 victim (keys s) @ [key]
    \<and> imagePtrs s' = (imagePtrs s)(victim := None, key \<mapsto> wrap tp
          \<lparr>ptr = make_shared ld,
           pointee = downscaleImageInplace ld raw (shl1 (halfSampleLevel key)),
           use_count = 2\<rparr>)
    \<and> nbImages (memUsage s') = nbImages (memUsage s)
    \<and> contentSize (memUsage s') = contentSize (memUsage s) - memorySize val
          + MemorySize tp (downscaleImageInplace ld raw (shl1 (halfSampleLevel key)))
    \<and> capacity (memUsage s') = capacity (memUsage s)
    \<and> maxSize (memUsage s') = maxSize (memUsage s)"
proof -
  from assms(1,2) have "imagePtrs s key = None" by (auto simp: consistent_def)
  then have none: "imagePtrs (evict victim val s) key = None"
    by (simp add: evict_def)
  from load_and_return_admit [OF none assms(4), of tp es]
  show ?thesis by (auto simp: evict_def)
qed

text \<open>
  C2. On a miss in a reachable state where the image does not fit in the capacity, let
  the recency list be \<open>older @ victim # younger\<close>, where no entry of \<open>older\<close> has both
  use count 1 and a size of at least the missing capacity, and \<open>victim\<close> has both. When
  the loader reads the image, the call evicts \<open>victim\<close> and nothing else and admits the
  new entry: the list becomes \<open>older @ younger @ [reqKey]\<close>, the map loses \<open>victim\<close> and
  gains the requested key, every other entry (in particular every older entry, held by
  a caller or too small) keeps its value, and the accountant is decremented by the
  victim and incremented by the new buffer. A younger entry that fits better is not
  preferred: the first fit by age is taken.
\<close>

theorem single_victim_first_fit:
  assumes "reachable s"
    and "reqKey_of tp fname level \<notin> set (keys s)"
    and "readImageSize ld fname = Some (width, height)"
    and "0 \<le> sint level" and "sint level < 32"
    and "\<not> sint (memSize_of tp width height (shl1 level) + contentSize (memUsage s))
          \<le> sint (capacity (memUsage s))"
    and "keys s = older @ victim # younger"
    and "\<forall>k\<in>set older. \<forall>v. imagePtrs s k = Some v \<longrightarrow>
          \<not> (useCount v = 1 \<and>
             sint (memSize_of tp width height (shl1 level) + contentSize (memUsage s)
                   - capacity (memUsage s)) \<le> sint (memorySize v))"
    and "imagePtrs s victim = Some val"
    and "useCount val = 1"
    and "sint (memSize_of tp width height (shl1 level) + contentSize (memUsage s)
               - capacity (memUsage s)) \<le> sint (memorySize val)"
    and "readImage ld fname = Some raw"
  shows "\<exists>s'. get ld tp fname level s =
        (Inr (Some (make_shared ld)), s', [CallReadImageSize fname, CallReadImage fname])
    \<and> keys s' = older @ younger @ [reqKey_of tp fname level]
    \<and> imagePtrs s' = (imagePtrs s)(victim := None, reqKey_of tp fname level \<mapsto> wrap tp
          \<lparr>ptr = make_shared ld,
           pointee = downscaleImageInplace ld raw (shl1 level),
           use_count = 2\<rparr>)
    \<and> (\<forall>k\<in>set older \<union> set younger. imagePtrs s' k = imagePtrs s k)
    \<and> nbImages (memUsage s') = nbImages (memUsage s)
    \<and> contentSize (memUsage s') = contentSize (memUsage s) - memorySize val
          + MemorySize tp (downscaleImageInplace ld raw (shl1 level))"
proof -
  let ?k = "reqKey_of tp fname level"
  let ?m = "memSize_of tp width height (shl1 level)"
  let ?c = "?m + contentSize (memUsage s) - capacity (memUsage s)"
  from assms(1) have c: "consistent s" by (rule reachable_consistent)
  then have d: "distinct (keys s)" and dm: "set (keys s) = dom (imagePtrs s)"
    by (simp_all add: consistent_def)
  have fk: "filename ?k = fname" and lk: "halfSampleLevel ?k = level"
    by (simp_all add: reqKey_of_def)
  have "\<forall>k\<in>set older. \<exists>v. imagePtrs s k = Some v
      \<and> \<not> (useCount v = 1 \<and> sint ?c \<le> sint (memorySize v))"
    using assms(7,8) dm by fastforce
  then have found: "find_single (imagePtrs s) ?c (keys s) = Inr (Some (victim, val))"
    unfolding assms(7) using assms(9,10,11) by (rule find_single_first)
  have "get ld tp fname level s = evict_and_admit ld tp ?k ?m s [CallReadImageSize fname]"
    using get_miss_unfold [OF assms(2,3,4,5)] assms(6) by simp
  then have call: "get ld tp fname level s
      = load_and_return ld tp ?k (evict victim val s) [CallReadImageSize fname]"
    by (simp add: evict_and_admit_def Let_def found)
  from d assms(7) have vo: "victim \<notin> set older" and vy: "victim \<notin> set younger"
    by auto
  then have rem: "remove1 victim (keys s) = older @ younger"
    by (simp add: assms(7) remove1_append)
  have "?k \<notin> set older \<union> set younger"
    using assms(2,7) by auto
  with vo vy have others: "\<forall>k\<in>set older \<union> set younger.
      ((imagePtrs s)(victim := None, ?k \<mapsto> x)) k = imagePtrs s k" for x
    by auto
  from load_and_return_after_evict [OF c assms(2,9), of ld raw tp "[CallReadImageSize fname]"]
    assms(12)
  obtain s' where
    "load_and_return ld tp ?k (evict victim val s) [CallReadImageSize fname] =
      (Inr (Some (make_shared ld)), s', [CallReadImageSize fname, CallReadImage fname])"
    "keys s' = remove1 victim (keys s) @ [?k]"
    "imagePtrs s' = (imagePtrs s)(victim := None, ?k \<mapsto> wrap tp
          \<lparr>ptr = make_shared ld,
           pointee = downscaleImageInplace ld raw (shl1 level),
           use_count = 2\<rparr>)"
    "nbImages (memUsage s') = nbImages (memUsage s)"
    "contentSize (memUsage s') = contentSize (memUsage s) - memorySize val
          + MemorySize tp (downscaleImageInplace ld raw (shl1 level))"
    by (auto simp: fk lk)
  with call rem others show ?thesis
    by (intro exI [of _ s']) simp
qed

text \<open>
  The witness: P (''a'', held by a caller) is older than Q (''b'', held by nobody); the
  request needs exactly the size of Q beyond the capacity. Only Q is evicted.
\<close>

theorem single_victim_first_fit_witness:
  "get (example_loader 1000 700 3) TUChar ''r'' 0
     (cache_of 1000000 2000000
        [(reqKey_of TUChar ''a'' 0, entry TUChar 1 1000 300 2),
         (reqKey_of TUChar ''b'' 0, entry TUChar 2 1000 300 1)])
   = (Inr (Some 3),
      cache_of 1000000 2000000
        [(reqKey_of TUChar ''a'' 0, entry TUChar 1 1000 300 2),
         (reqKey_of TUChar ''r'' 0, entry TUChar 3 1000 700 2)],
      [CallReadImageSize ''r'', CallReadImage ''r''])"
proof -
  let ?s = "cache_of 1000000 2000000
        [(reqKey_of TUChar ''a'' 0, entry TUChar 1 1000 300 2),
         (reqKey_of TUChar ''b'' 0, entry TUChar 2 1000 300 1)]"
  let ?ld = "example_loader 1000 700 3"
  have 2: "reqKey_of TUChar ''r'' 0 \<notin> set (keys ?s)"
    by (simp add: cache_of_def reqKey_of_def)
  have 3: "readImageSize ?ld ''r'' = Some (1000, 700)"
    by (simp add: example_loader_def)
  have 4: "0 \<le> sint (0 :: int32)" and 5: "sint (0 :: int32) < 32"
    by simp_all
  have 6: "\<not> sint (memSize_of TUChar 1000 700 (shl1 0) + contentSize (memUsage ?s))
          \<le> sint (capacity (memUsage ?s))"
    by (simp add: eval_defs)
  have 7: "keys ?s = [reqKey_of TUChar ''a'' 0] @ reqKey_of TUChar ''b'' 0 # []"
    by (simp add: cache_of_def)
  have 8: "\<forall>k\<in>set [reqKey_of TUChar ''a'' 0]. \<forall>v. imagePtrs ?s k = Some v \<longrightarrow>
          \<not> (useCount v = 1 \<and>
             sint (memSize_of TUChar 1000 700 (shl1 0) + contentSize (memUsage ?s)
                   - capacity (memUsage ?s)) \<le> sint (memorySize v))"
    by (simp add: eval_defs)
  have 9: "imagePtrs ?s (reqKey_of TUChar ''b'' 0) = Some (entry TUChar 2 1000 300 1)"
    by (simp add: cache_of_def reqKey_of_def)
  have 10: "useCount (entry TUChar 2 1000 300 1) = 1"
    by (simp add: eval_defs)
  have 11: "sint (memSize_of TUChar 1000 700 (shl1 0) + contentSize (memUsage ?s)
               - capacity (memUsage ?s)) \<le> sint (memorySize (entry TUChar 2 1000 300 1))"
    by (simp add: eval_defs)
  have 12: "readImage ?ld ''r'' = Some \<lparr>Width = 1000, Height = 700\<rparr>"
    by (simp add: example_loader_def)
  from single_victim_first_fit [OF reachable_a2b 2 3 4 5 6 7 8 9 10 11 12]
  obtain s' where call: "get ?ld TUChar ''r'' 0 ?s =
      (Inr (Some (make_shared ?ld)), s', [CallReadImageSize ''r'', CallReadImage ''r''])"
    by blast
  have "get ?ld TUChar ''r'' 0 ?s = (Inr (Some 3),
      cache_of 1000000 2000000
        [(reqKey_of TUChar ''a'' 0, entry TUChar 1 1000 300 2),
         (reqKey_of TUChar ''r'' 0, entry TUChar 3 1000 700 2)],
      [CallReadImageSize ''r'', CallReadImage ''r''])"
    by (simp add: eval_defs fun_eq_iff)
  with call show ?thesis by simp
qed

subsection \<open>Exhaustion\<close>

lemma accounting_difference:
  assumes "consistent s" and "consistent s'" and "imagePtrs s' \<subseteq>\<^sub>m imagePtrs s"
  shows "nbImages (memUsage s') = nbImages (memUsage s)
      - of_nat (card (dom (imagePtrs s) - dom (imagePtrs s')))"
    and "contentSize (memUsage s') = contentSize (memUsage s)
      - (\<Sum>k\<in>dom (imagePtrs s) - dom (imagePtrs s'). memorySize (the (imagePtrs s k)))"
proof -
  let ?A = "dom (imagePtrs s)" and ?B = "dom (imagePtrs s')"
  have fin: "finite ?A"
    using assms(1) by (metis consistent_def List.finite_set)
  have sub: "?B \<subseteq> ?A"
    using assms(3) by (rule map_le_implies_dom_le)
  have nA: "nbImages (memUsage s) = of_nat (card ?A)"
    using assms(1) by (metis consistent_def distinct_card)
  have nB: "nbImages (memUsage s') = of_nat (card ?B)"
    using assms(2) by (metis consistent_def distinct_card)
  have "card ?A = card ?B + card (?A - ?B)"
    using fin sub by (metis card_Diff_subset add.commute card_mono finite_subset le_add_diff_inverse)
  then show "nbImages (memUsage s') = nbImages (memUsage s) - of_nat (card (?A - ?B))"
    using nA nB by simp
  have cA: "contentSize (memUsage s) = (\<Sum>k\<in>?A. memorySize (the (imagePtrs s k)))"
    using assms(1) by (simp add: consistent_def sum_list_distinct_conv_sum_set)
  have cB: "contentSize (memUsage s') = (\<Sum>k\<in>?B. memorySize (the (imagePtrs s' k)))"
    using assms(2) by (simp add: consistent_def sum_list_distinct_conv_sum_set)
  have same: "(\<Sum>k\<in>?B. memorySize (the (imagePtrs s' k))) = (\<Sum>k\<in>?B. memorySize (the (imagePtrs s k)))"
    using assms(3) by (intro sum.cong) (auto simp: map_le_def)
  have "(\<Sum>k\<in>?A. memorySize (the (imagePtrs s k)))
      = (\<Sum>k\<in>?A - ?B. memorySize (the (imagePtrs s k))) + (\<Sum>k\<in>?B. memorySize (the (imagePtrs s k)))"
    using sub fin by (rule sum.subset_diff)
  then show "contentSize (memUsage s') = contentSize (memUsage s)
      - (\<Sum>k\<in>?A - ?B. memorySize (the (imagePtrs s k)))"
    using cA cB same by simp
qed

lemma sint_add_exact:
  fixes a b :: int32
  assumes "- (2 ^ 31) \<le> sint a + sint b" and "sint a + sint b < 2 ^ 31"
  shows "sint (a + b) = sint a + sint b"
  using assms by (simp add: sint_word_ariths signed_take_bit_int_eq_self)

text \<open>
  C5. On a miss in a reachable state (size probed, level from 0 to 31), \<open>get\<close> throws
  the not-enough-space error exactly when the image does not fit in the capacity, the
  first pass finds no victim, and after the second pass the required size plus the
  content size still exceeds \<open>maxSize\<close>. The state after the error is the state after
  the second pass: the image is not read, the requested key is neither mapped nor
  listed, the remaining entries are unchanged, only entries of use count 1 are gone,
  and the accountant is the one before the call less the number and the total size of
  the evicted entries. If every resident entry has a use count above 1, the capacity is
  at most \<open>maxSize\<close>, and the required size exceeds \<open>maxSize\<close> minus the content size
  (their sum being in the range of an \<open>int\<close>), the call throws and the state, so
  \<open>nbImages\<close> and \<open>contentSize\<close>, is unchanged.
\<close>

theorem exhaustion:
  assumes "reachable s"
    and "reqKey_of tp fname level \<notin> set (keys s)"
    and "readImageSize ld fname = Some (width, height)"
    and "0 \<le> sint level" and "sint level < 32"
  shows "((\<exists>s' evs. get ld tp fname level s = (Inl NotEnoughSpace, s', evs)) \<longleftrightarrow>
        \<not> sint (memSize_of tp width height (shl1 level) + contentSize (memUsage s))
            \<le> sint (capacity (memUsage s))
        \<and> find_single (imagePtrs s)
            (memSize_of tp width height (shl1 level) + contentSize (memUsage s)
              - capacity (memUsage s)) (keys s) = Inr None
        \<and> \<not> sint (memSize_of tp width height (shl1 level)
              + contentSize (memUsage (snd (evict_loop
                  (memSize_of tp width height (shl1 level) + contentSize (memUsage s)
                    - capacity (memUsage s)) s))))
            \<le> sint (maxSize (memUsage s)))
    \<and> (\<forall>s' evs. get ld tp fname level s = (Inl NotEnoughSpace, s', evs) \<longrightarrow>
          evs = [CallReadImageSize fname]
        \<and> s' = snd (evict_loop
              (memSize_of tp width height (shl1 level) + contentSize (memUsage s)
                - capacity (memUsage s)) s)
        \<and> imagePtrs s' (reqKey_of tp fname level) = None
        \<and> reqKey_of tp fname level \<notin> set (keys s')
        \<and> (\<forall>k v. imagePtrs s' k = Some v \<longrightarrow> imagePtrs s k = Some v)
        \<and> (\<forall>k v. imagePtrs s k = Some v \<longrightarrow> imagePtrs s' k = None \<longrightarrow> useCount v = 1)
        \<and> nbImages (memUsage s') = nbImages (memUsage s)
            - of_nat (card (dom (imagePtrs s) - dom (imagePtrs s')))
        \<and> contentSize (memUsage s') = contentSize (memUsage s)
            - (\<Sum>k\<in>dom (imagePtrs s) - dom (imagePtrs s'). memorySize (the (imagePtrs s k))))
    \<and> ((\<forall>k v. imagePtrs s k = Some v \<longrightarrow> 1 < useCount v)
        \<and> sint (capacity (memUsage s)) \<le> sint (maxSize (memUsage s))
        \<and> sint (maxSize (memUsage s)) - sint (contentSize (memUsage s))
            < sint (memSize_of tp width height (shl1 level))
        \<and> sint (memSize_of tp width height (shl1 level)) + sint (contentSize (memUsage s)) < 2 ^ 31
        \<longrightarrow> get ld tp fname level s = (Inl NotEnoughSpace, s, [CallReadImageSize fname]))"
proof -
  let ?k = "reqKey_of tp fname level"
  let ?m = "memSize_of tp width height (shl1 level)"
  let ?c = "?m + contentSize (memUsage s) - capacity (memUsage s)"
  let ?fits = "sint (?m + contentSize (memUsage s)) \<le> sint (capacity (memUsage s))"
  let ?s1 = "snd (evict_loop ?c s)"
  let ?full = "\<not> sint (?m + contentSize (memUsage ?s1)) \<le> sint (maxSize (memUsage s))"
  let ?evs = "[CallReadImageSize fname]"
  from assms(1) have c: "consistent s" by (rule reachable_consistent)
  then have dm: "set (keys s) = dom (imagePtrs s)" by (simp add: consistent_def)
  with assms(2) have none: "imagePtrs s ?k = None" by auto
  obtain s1 where loop: "evict_loop ?c s = (None, s1)"
    using evict_loop_None [OF c] by blast
  then have s1: "?s1 = s1" by simp
  from evict_loop_consistent [OF c loop] have c1: "consistent s1" by simp
  from evict_loop_map_le [OF loop c]
  have le: "imagePtrs s1 \<subseteq>\<^sub>m imagePtrs s" and mx: "maxSize (memUsage s1) = maxSize (memUsage s)"
    and ks: "set (keys s1) \<subseteq> set (keys s)" by simp_all
  note unfold = get_miss_unfold [OF assms(2,3,4,5)]
  have lr: "load_and_return ld tp ?k s0 ?evs \<noteq> (Inl NotEnoughSpace, s', evs)" for s0 s' evs
    by (auto simp: load_and_return_def load_def Let_def fetch_def
        split: prod.splits option.splits)
  obtain found where fs: "find_single (imagePtrs s) ?c (keys s) = Inr found"
    using find_single_total [of "keys s" "imagePtrs s" ?c] dm by auto
  have ea: "evict_and_admit ld tp ?k ?m s ?evs =
      (case found of
         Some (key, val) \<Rightarrow> load_and_return ld tp ?k (evict key val s) ?evs
       | None \<Rightarrow> if sint (?m + contentSize (memUsage s1)) \<le> sint (maxSize (memUsage s))
           then load_and_return ld tp ?k s1 ?evs else (Inl NotEnoughSpace, s1, ?evs))"
    by (simp add: evict_and_admit_def Let_def fs loop mx split: option.splits)
  have iff: "get ld tp fname level s = (Inl NotEnoughSpace, s', evs) \<longleftrightarrow>
      \<not> ?fits \<and> found = None \<and> ?full \<and> s' = s1 \<and> evs = ?evs" for s' evs
    unfolding unfold ea s1
    by (cases found) (auto simp: lr split: prod.splits)
  have A: "(\<exists>s' evs. get ld tp fname level s = (Inl NotEnoughSpace, s', evs)) \<longleftrightarrow>
      \<not> ?fits \<and> find_single (imagePtrs s) ?c (keys s) = Inr None \<and> ?full"
    unfolding iff fs by auto
  have B: "evs = ?evs \<and> s' = ?s1
      \<and> imagePtrs s' ?k = None \<and> ?k \<notin> set (keys s')
      \<and> (\<forall>k v. imagePtrs s' k = Some v \<longrightarrow> imagePtrs s k = Some v)
      \<and> (\<forall>k v. imagePtrs s k = Some v \<longrightarrow> imagePtrs s' k = None \<longrightarrow> useCount v = 1)
      \<and> nbImages (memUsage s') = nbImages (memUsage s)
          - of_nat (card (dom (imagePtrs s) - dom (imagePtrs s')))
      \<and> contentSize (memUsage s') = contentSize (memUsage s)
          - (\<Sum>k\<in>dom (imagePtrs s) - dom (imagePtrs s'). memorySize (the (imagePtrs s k)))"
    if fail: "get ld tp fname level s = (Inl NotEnoughSpace, s', evs)" for s' evs
  proof -
    from fail iff have s': "s' = s1" and evs: "evs = ?evs" by simp_all
    have kept: "\<forall>k v. imagePtrs s1 k = Some v \<longrightarrow> imagePtrs s k = Some v"
      using le by (auto simp: map_le_def dom_def)
    have none1: "imagePtrs s1 ?k = None"
      using kept none by (cases "imagePtrs s1 ?k") auto
    have notin: "?k \<notin> set (keys s1)"
      using ks assms(2) by auto
    have gone: "\<forall>k v. imagePtrs s k = Some v \<longrightarrow> imagePtrs s1 k = None \<longrightarrow> useCount v = 1"
    proof (cases "0 < sint ?c")
      case True
      from evict_loop_result [OF loop c True]
      have "imagePtrs s1 = imagePtrs s |` {k. useCount (the (imagePtrs s k)) \<noteq> 1}" by simp
      then show ?thesis by (auto simp: restrict_map_def split: if_splits)
    next
      case False
      with loop have "s1 = s" by (simp add: evict_loop_idle)
      then show ?thesis by simp
    qed
    show ?thesis
      unfolding s' evs s1
      using kept none1 notin gone accounting_difference [OF c c1 le] by simp
  qed
  have C: "get ld tp fname level s = (Inl NotEnoughSpace, s, ?evs)"
    if held: "\<forall>k v. imagePtrs s k = Some v \<longrightarrow> 1 < useCount v"
      and cap: "sint (capacity (memUsage s)) \<le> sint (maxSize (memUsage s))"
      and big: "sint (maxSize (memUsage s)) - sint (contentSize (memUsage s)) < sint ?m"
      and range: "sint ?m + sint (contentSize (memUsage s)) < 2 ^ 31"
  proof -
    have "- (2 ^ 31) \<le> sint (maxSize (memUsage s))"
      using sint_ge [of "maxSize (memUsage s)"] by simp
    with big have "- (2 ^ 31) \<le> sint ?m + sint (contentSize (memUsage s))" by linarith
    from sint_add_exact [OF this range]
    have sum: "sint (?m + contentSize (memUsage s)) = sint ?m + sint (contentSize (memUsage s))" .
    have nofit: "\<not> ?fits" using sum big cap by linarith
    have all: "\<forall>k\<in>set (keys s). \<exists>v. imagePtrs s k = Some v \<and> useCount v \<noteq> 1"
      using held dm by fastforce
    have f: "find_single (imagePtrs s) ?c (keys s) = Inr None"
      using all by (rule find_single_all_referenced)
    have "evict_loop ?c s = (None, s)"
      using find_unused_all_referenced [OF all]
      by (simp add: evict_loop.simps [of ?c s])
    with loop have same: "s1 = s" by simp
    have "?full" unfolding s1 same using sum big by linarith
    with nofit f fs same show ?thesis
      using iff [of s ?evs] by simp
  qed
  from A B C show ?thesis by blast
qed

text \<open>
  The witness: with ''a'' held by nobody and ''b'' held by a caller, a request of
  1,800,000 bytes evicts ''a'' and then fails, and the eviction stays; with both held,
  a request of 1,500,000 bytes fails and changes nothing.
\<close>

theorem exhaustion_witness:
  "get (example_loader 1000 1800 3) TUChar ''c'' 0
     (cache_of 1000000 2000000
        [(reqKey_of TUChar ''a'' 0, entry TUChar 1 1000 300 1),
         (reqKey_of TUChar ''b'' 0, entry TUChar 2 1000 300 2)])
   = (Inl NotEnoughSpace,
      cache_of 1000000 2000000 [(reqKey_of TUChar ''b'' 0, entry TUChar 2 1000 300 2)],
      [CallReadImageSize ''c''])
   \<and> nbImages (memUsage (cache_of 1000000 2000000
        [(reqKey_of TUChar ''b'' 0, entry TUChar 2 1000 300 2)])) = 2 - 1
   \<and> contentSize (memUsage (cache_of 1000000 2000000
        [(reqKey_of TUChar ''b'' 0, entry TUChar 2 1000 300 2)])) = 600000 - 300000
   \<and> get (example_loader 1000 1500 3) TUChar ''c'' 0
     (cache_of 1000000 2000000
        [(reqKey_of TUChar ''a'' 0, entry TUChar 1 1000 300 2),
         (reqKey_of TUChar ''b'' 0, entry TUChar 2 1000 300 2)])
   = (Inl NotEnoughSpace,
      cache_of 1000000 2000000
        [(reqKey_of TUChar ''a'' 0, entry TUChar 1 1000 300 2),
         (reqKey_of TUChar ''b'' 0, entry TUChar 2 1000 300 2)],
      [CallReadImageSize ''c''])"
proof -
  let ?s = "cache_of 1000000 2000000
        [(reqKey_of TUChar ''a'' 0, entry TUChar 1 1000 300 1),
         (reqKey_of TUChar ''b'' 0, entry TUChar 2 1000 300 2)]"
  let ?s' = "cache_of 1000000 2000000 [(reqKey_of TUChar ''b'' 0, entry TUChar 2 1000 300 2)]"
  let ?t = "cache_of 1000000 2000000
        [(reqKey_of TUChar ''a'' 0, entry TUChar 1 1000 300 2),
         (reqKey_of TUChar ''b'' 0, entry TUChar 2 1000 300 2)]"
  have lvl: "0 \<le> sint (0 :: int32)" "sint (0 :: int32) < 32" by simp_all
  have miss_s: "reqKey_of TUChar ''c'' 0 \<notin> set (keys ?s)"
    and miss_t: "reqKey_of TUChar ''c'' 0 \<notin> set (keys ?t)"
    by (simp_all add: cache_of_def reqKey_of_def)
  have probe1: "readImageSize (example_loader 1000 1800 3) ''c'' = Some (1000, 1800)"
    and probe2: "readImageSize (example_loader 1000 1500 3) ''c'' = Some (1000, 1500)"
    by (simp_all add: example_loader_def)
  have call: "get (example_loader 1000 1800 3) TUChar ''c'' 0 ?s
      = (Inl NotEnoughSpace, ?s', [CallReadImageSize ''c''])"
    by (simp add: eval_defs evict_loop.simps fun_eq_iff)
  have dom_s: "dom (imagePtrs ?s) - dom (imagePtrs ?s') = {reqKey_of TUChar ''a'' 0}"
    by (auto simp: cache_of_def reqKey_of_def split: if_splits)
  from exhaustion [OF reachable_ab2 miss_s probe1 lvl] call
  have "nbImages (memUsage ?s') = nbImages (memUsage ?s)
            - of_nat (card (dom (imagePtrs ?s) - dom (imagePtrs ?s')))"
    and "contentSize (memUsage ?s') = contentSize (memUsage ?s)
            - (\<Sum>k\<in>dom (imagePtrs ?s) - dom (imagePtrs ?s'). memorySize (the (imagePtrs ?s k)))"
    by blast+
  then have acc: "nbImages (memUsage ?s') = 2 - 1" "contentSize (memUsage ?s') = 600000 - 300000"
    unfolding dom_s by (simp_all add: eval_defs)
  have held: "\<forall>k v. imagePtrs ?t k = Some v \<longrightarrow> 1 < useCount v"
    by (auto simp: eval_defs split: if_splits)
  have nums: "sint (capacity (memUsage ?t)) \<le> sint (maxSize (memUsage ?t))"
    "sint (maxSize (memUsage ?t)) - sint (contentSize (memUsage ?t))
        < sint (memSize_of TUChar 1000 1500 (shl1 0))"
    "sint (memSize_of TUChar 1000 1500 (shl1 0)) + sint (contentSize (memUsage ?t)) < 2 ^ 31"
    by (simp_all add: eval_defs)
  from exhaustion [OF reachable_a2b2 miss_t probe2 lvl] held nums
  have "get (example_loader 1000 1500 3) TUChar ''c'' 0 ?t
      = (Inl NotEnoughSpace, ?t, [CallReadImageSize ''c''])"
    by blast
  with call acc show ?thesis by blast
qed

text \<open>
  C1. The second pass at a concrete input. The cache (capacity 1 MB, maximal size 2 MB)
  holds ''a'', ''b'' and ''c'' of 300,000 bytes each, held by nobody; the request needs
  500,000 bytes, so 400,000 bytes are missing and no single entry covers them. Evicting
  ''a'' and ''b'' covers the missing capacity, yet the call evicts ''c'' as well: the
  loop tests \<open>missingCapacity > 0\<close> and never subtracts from it, so it stops only when
  no entry of use count 1 is left.
\<close>

theorem second_pass_evicts_all:
  "get (example_loader 1000 500 4) TUChar ''d'' 0
     (cache_of 1000000 2000000
        [(reqKey_of TUChar ''a'' 0, entry TUChar 1 1000 300 1),
         (reqKey_of TUChar ''b'' 0, entry TUChar 2 1000 300 1),
         (reqKey_of TUChar ''c'' 0, entry TUChar 3 1000 300 1)])
   = (Inr (Some 4),
      cache_of 1000000 2000000 [(reqKey_of TUChar ''d'' 0, entry TUChar 4 1000 500 2)],
      [CallReadImageSize ''d'', CallReadImage ''d''])
   \<and> reachable (cache_of 1000000 2000000
        [(reqKey_of TUChar ''a'' 0, entry TUChar 1 1000 300 1),
         (reqKey_of TUChar ''b'' 0, entry TUChar 2 1000 300 1),
         (reqKey_of TUChar ''c'' 0, entry TUChar 3 1000 300 1)])
   \<and> sint (memSize_of TUChar 1000 500 (shl1 0) + 900000 - 1000000 :: int32) = 400000
   \<and> sint (memorySize (entry TUChar 1 1000 300 1)) + sint (memorySize (entry TUChar 2 1000 300 1))
       = 600000"
proof -
  have "get (example_loader 1000 500 4) TUChar ''d'' 0
     (cache_of 1000000 2000000
        [(reqKey_of TUChar ''a'' 0, entry TUChar 1 1000 300 1),
         (reqKey_of TUChar ''b'' 0, entry TUChar 2 1000 300 1),
         (reqKey_of TUChar ''c'' 0, entry TUChar 3 1000 300 1)])
   = (Inr (Some 4),
      cache_of 1000000 2000000 [(reqKey_of TUChar ''d'' 0, entry TUChar 4 1000 500 2)],
      [CallReadImageSize ''d'', CallReadImage ''d''])"
    by (simp add: eval_defs evict_loop.simps fun_eq_iff)
  moreover have "sint (memSize_of TUChar 1000 500 (shl1 0) + 900000 - 1000000 :: int32) = 400000"
    by (simp add: eval_defs)
  moreover have "sint (memorySize (entry TUChar 1 1000 300 1))
      + sint (memorySize (entry TUChar 2 1000 300 1)) = 600000"
    by (simp add: eval_defs)
  ultimately show ?thesis
    using reachable_abc by blast
qed

end
